theory Spec2Isabelle
  imports Main
begin

section \<open>The virus genealogy of \<^verbatim>\<open>virus_genealogy.h\<close>\<close>

text \<open>
  \<^verbatim>\<open>VirusGenealogy<Virus>\<close> keeps a \<^verbatim>\<open>std::map\<close> from identifiers to
  shared pointers to nodes. A node holds its payload, a vector of weak pointers to its
  parents and a vector of shared pointers to its children.

  The embedding is a store keyed by identifier: the registry \<open>known_ids\<close> maps an
  identifier to the node registered under it, and a pointer to a node is the identifier
  of that node (the field \<^verbatim>\<open>Node::id\<close> is the key). The store describes the
  registered nodes only. A call that needs the contents of a node that has left the
  registry, or that locks a weak pointer to such a node (where the source runs
  \<^verbatim>\<open>throw;\<close> with no active exception when the lock fails), ends in the fault
  \<open>StalePointer\<close>. Undefined behaviour of the C++ library (erasing at
  \<^verbatim>\<open>end()\<close>, \<^verbatim>\<open>operator[]\<close> out of range) is the fault
  \<open>UndefinedBehaviour\<close>.

  Naming a node by its identifier is exact as long as every identifier that a registered
  node lists is registered itself. That is part of edge consistency below; it holds in
  every well-formed genealogy, and \<^verbatim>\<open>remove\<close> is shown never to end in a fault
  there.

  In particular the lock of a weak pointer is the test whether the identifier is
  registered, where the source tests whether the node is alive. The two tests agree in
  a well-formed genealogy. They can differ after a \<^verbatim>\<open>remove\<close> that threw
  half-way: a node that has left the registry is alive as long as a vector of children
  owns it, and its identifier can be registered again for another node. Where a
  statement below depends on a lock, it is made for a genealogy in which every listed
  parent is registered: a well-formed one, a node that has just been created, or one
  of the examples.

  The payload constructor \<^verbatim>\<open>Virus(id)\<close> is the parameter \<open>ctor\<close>; it
  returns \<open>None\<close> where the constructor throws.
\<close>

subsection \<open>Data\<close>

datatype error = VirusNotFound | VirusAlreadyCreated | TriedToRemoveStemVirus | VirusCtorThrew

record ('i, 'v) node =
  virus :: 'v
  parents :: "'i list"
  children :: "'i list"

record ('i, 'v) genealogy =
  stem_id :: 'i
  known_ids :: "'i \<rightharpoonup> ('i, 'v) node"

text \<open>What a call can end in besides a return or an exception.\<close>

datatype fault = UndefinedBehaviour | StalePointer

text \<open>The result of a member function of a node (none of them throws an exception
  that can be caught), of a \<^verbatim>\<open>const\<close> member function of the genealogy, and
  of a mutating one: the graph after the call, also when the call throws.\<close>

datatype 'a step = Step 'a | Fault fault

datatype 'a answer = Value 'a | Raised error | Faulted fault

datatype ('i, 'v) outcome =
    Returned "('i, 'v) genealogy"
  | Threw error "('i, 'v) genealogy"
  | Failed fault

subsection \<open>Construction and queries\<close>

definition make_node :: "('i \<Rightarrow> 'v option) \<Rightarrow> 'i \<Rightarrow> ('i, 'v) node option" where
  "make_node ctor i = map_option (\<lambda>v. \<lparr>virus = v, parents = [], children = []\<rparr>) (ctor i)"

definition VirusGenealogy :: "('i \<Rightarrow> 'v option) \<Rightarrow> 'i \<Rightarrow> ('i, 'v) genealogy answer" where
  "VirusGenealogy ctor s =
     (case make_node ctor s of
        None \<Rightarrow> Raised VirusCtorThrew
      | Some n \<Rightarrow> Value \<lparr>stem_id = s, known_ids = [s \<mapsto> n]\<rparr>)"

definition get_stem_id :: "('i, 'v) genealogy \<Rightarrow> 'i" where
  "get_stem_id g = stem_id g"

definition exists :: "('i, 'v) genealogy \<Rightarrow> 'i \<Rightarrow> bool" where
  "exists g i = (known_ids g i \<noteq> None)"

text \<open>\<^verbatim>\<open>exists(std::vector<id_type> const &)\<close>: the loop leaves at the first
  identifier that is not registered.\<close>

fun exists_all :: "('i, 'v) genealogy \<Rightarrow> 'i list \<Rightarrow> bool" where
  "exists_all g [] = True"
| "exists_all g (i # is) = (if \<not> exists g i then False else exists_all g is)"

text \<open>\<^verbatim>\<open>Node::get_parents\<close>: every weak pointer is locked in turn. The lock
  succeeds here when the identifier is registered, which is when the node is alive in
  a well-formed genealogy.\<close>

fun lock_ids :: "('i, 'v) genealogy \<Rightarrow> 'i list \<Rightarrow> 'i list step" where
  "lock_ids g [] = Step []"
| "lock_ids g (p # ps) =
     (if \<not> exists g p then Fault StalePointer
      else case lock_ids g ps of Step qs \<Rightarrow> Step (p # qs) | Fault f \<Rightarrow> Fault f)"

definition get_parents :: "('i, 'v) genealogy \<Rightarrow> 'i \<Rightarrow> 'i list answer" where
  "get_parents g i =
     (case known_ids g i of
        None \<Rightarrow> Raised VirusNotFound
      | Some n \<Rightarrow> (case lock_ids g (parents n) of Step ps \<Rightarrow> Value ps | Fault f \<Rightarrow> Faulted f))"

text \<open>\<^verbatim>\<open>operator[]\<close> of the genealogy.\<close>

definition get_virus :: "('i, 'v) genealogy \<Rightarrow> 'i \<Rightarrow> 'v answer" where
  "get_virus g i =
     (case known_ids g i of
        None \<Rightarrow> Raised VirusNotFound
      | Some n \<Rightarrow> Value (virus n))"

subsection \<open>The iterator over the children of a node\<close>

text \<open>A \<^verbatim>\<open>children_iterator\<close> is a pointer into the children vector of a node:
  the node and the position. \<^verbatim>\<open>std::vector::operator[]\<close> requires a position
  below the size of the vector.\<close>

datatype 'i children_iterator = Child_ptr 'i nat

definition vector_at :: "'a list \<Rightarrow> nat \<Rightarrow> nat step" where
  "vector_at xs n = (if n < length xs then Step n else Fault UndefinedBehaviour)"

definition node_begin :: "'i \<Rightarrow> ('i, 'v) node \<Rightarrow> 'i children_iterator step" where
  "node_begin i n =
     (case vector_at (children n) 0 of Step k \<Rightarrow> Step (Child_ptr i k) | Fault f \<Rightarrow> Fault f)"

definition node_end :: "'i \<Rightarrow> ('i, 'v) node \<Rightarrow> 'i children_iterator step" where
  "node_end i n =
     (case vector_at (children n) (length (children n)) of
        Step k \<Rightarrow> Step (Child_ptr i k) | Fault f \<Rightarrow> Fault f)"

definition get_children_begin ::
  "('i, 'v) genealogy \<Rightarrow> 'i \<Rightarrow> 'i children_iterator answer" where
  "get_children_begin g i =
     (case known_ids g i of
        None \<Rightarrow> Raised VirusNotFound
      | Some n \<Rightarrow> (case node_begin i n of Step it \<Rightarrow> Value it | Fault f \<Rightarrow> Faulted f))"

definition get_children_end ::
  "('i, 'v) genealogy \<Rightarrow> 'i \<Rightarrow> 'i children_iterator answer" where
  "get_children_end g i =
     (case known_ids g i of
        None \<Rightarrow> Raised VirusNotFound
      | Some n \<Rightarrow> (case node_end i n of Step it \<Rightarrow> Value it | Fault f \<Rightarrow> Faulted f))"

subsection \<open>Linking\<close>

definition update_node ::
  "('i, 'v) genealogy \<Rightarrow> 'i \<Rightarrow> (('i, 'v) node \<Rightarrow> ('i, 'v) node) \<Rightarrow> ('i, 'v) genealogy" where
  "update_node g a f = g\<lparr>known_ids := (known_ids g)(a := map_option f (known_ids g a))\<rparr>"

definition insert_node ::
  "('i, 'v) genealogy \<Rightarrow> 'i \<Rightarrow> ('i, 'v) node \<Rightarrow> ('i, 'v) genealogy" where
  "insert_node g i n = g\<lparr>known_ids := (known_ids g)(i \<mapsto> n)\<rparr>"

definition erase :: "('i, 'v) genealogy \<Rightarrow> 'i \<Rightarrow> ('i, 'v) genealogy" where
  "erase g i = g\<lparr>known_ids := (known_ids g)(i := None)\<rparr>"

text \<open>\<^verbatim>\<open>Node::add_parent\<close>, called on the node \<open>c\<close> with a pointer to \<open>p\<close>; both
  callers have checked that the two nodes are registered.\<close>

definition add_parent :: "('i, 'v) genealogy \<Rightarrow> 'i \<Rightarrow> 'i \<Rightarrow> ('i, 'v) genealogy" where
  "add_parent g c p =
     update_node (update_node g c (\<lambda>n. n\<lparr>parents := parents n @ [p]\<rparr>))
       p (\<lambda>n. n\<lparr>children := children n @ [c]\<rparr>)"

subsection \<open>Creation and connection\<close>

definition create ::
  "('i \<Rightarrow> 'v option) \<Rightarrow> ('i, 'v) genealogy \<Rightarrow> 'i \<Rightarrow> 'i \<Rightarrow> ('i, 'v) outcome" where
  "create ctor g i parent_id =
     (if exists g i then Threw VirusAlreadyCreated g
      else if \<not> exists g parent_id then Threw VirusNotFound g
      else case make_node ctor i of
             None \<Rightarrow> Threw VirusCtorThrew (erase g i)
           | Some n \<Rightarrow> Returned (add_parent (insert_node g i n) i parent_id))"

definition create_multi ::
  "('i \<Rightarrow> 'v option) \<Rightarrow> ('i, 'v) genealogy \<Rightarrow> 'i \<Rightarrow> 'i list \<Rightarrow> ('i, 'v) outcome" where
  "create_multi ctor g i parent_ids =
     (if exists g i then Threw VirusAlreadyCreated g
      else if \<not> exists_all g parent_ids then Threw VirusNotFound g
      else if parent_ids = [] then Returned g
      else case make_node ctor i of
             None \<Rightarrow> Threw VirusCtorThrew (erase g i)
           | Some n \<Rightarrow>
               Returned (fold (\<lambda>parent_id g'. add_parent g' i parent_id) parent_ids
                           (insert_node g i n)))"

definition connect :: "('i, 'v) genealogy \<Rightarrow> 'i \<Rightarrow> 'i \<Rightarrow> ('i, 'v) outcome" where
  "connect g child_id parent_id =
     (if \<not> exists g child_id \<or> \<not> exists g parent_id then Threw VirusNotFound g
      else case get_parents g child_id of
             Value ps \<Rightarrow>
               if parent_id \<in> set ps then Returned g
               else Returned (add_parent g child_id parent_id)
           | Raised e \<Rightarrow> Threw e g
           | Faulted f \<Rightarrow> Failed f)"

subsection \<open>Removal\<close>

text \<open>\<^verbatim>\<open>std::ranges::find_if\<close> followed by \<^verbatim>\<open>erase\<close>. On the parents the
  predicate locks every weak pointer it looks at; when nothing is found the vector is
  erased at \<^verbatim>\<open>end()\<close>.\<close>

fun erase_parent :: "('i, 'v) genealogy \<Rightarrow> 'i \<Rightarrow> 'i list \<Rightarrow> 'i list step" where
  "erase_parent g parent_id [] = Fault UndefinedBehaviour"
| "erase_parent g parent_id (p # ps) =
     (if \<not> exists g p then Fault StalePointer
      else if p = parent_id then Step ps
      else case erase_parent g parent_id ps of Step qs \<Rightarrow> Step (p # qs) | Fault f \<Rightarrow> Fault f)"

fun erase_child :: "'i \<Rightarrow> 'i list \<Rightarrow> 'i list step" where
  "erase_child child_id [] = Fault UndefinedBehaviour"
| "erase_child child_id (c # cs) =
     (if c = child_id then Step cs
      else case erase_child child_id cs of Step ds \<Rightarrow> Step (c # ds) | Fault f \<Rightarrow> Fault f)"

definition remove_parent ::
  "('i, 'v) genealogy \<Rightarrow> 'i \<Rightarrow> 'i \<Rightarrow> ('i, 'v) genealogy step" where
  "remove_parent g c parent_id =
     (case known_ids g c of
        None \<Rightarrow> Fault StalePointer
      | Some n \<Rightarrow>
          (case erase_parent g parent_id (parents n) of
             Step ps \<Rightarrow> Step (update_node g c (\<lambda>n. n\<lparr>parents := ps\<rparr>))
           | Fault f \<Rightarrow> Fault f))"

definition remove_child ::
  "('i, 'v) genealogy \<Rightarrow> 'i \<Rightarrow> 'i \<Rightarrow> ('i, 'v) genealogy step" where
  "remove_child g p child_id =
     (case known_ids g p of
        None \<Rightarrow> Fault StalePointer
      | Some n \<Rightarrow>
          (case erase_child child_id (children n) of
             Step cs \<Rightarrow> Step (update_node g p (\<lambda>n. n\<lparr>children := cs\<rparr>))
           | Fault f \<Rightarrow> Fault f))"

definition is_orphan :: "('i, 'v) genealogy \<Rightarrow> 'i \<Rightarrow> bool" where
  "is_orphan g c = (case known_ids g c of None \<Rightarrow> False | Some n \<Rightarrow> parents n = [])"

text \<open>The two loops of \<^verbatim>\<open>Node::remove_my_trace\<close>, run on the node \<open>i\<close>.\<close>

fun unlink_children ::
  "'i \<Rightarrow> 'i list \<Rightarrow> 'i list \<Rightarrow> ('i, 'v) genealogy \<Rightarrow> ('i list \<times> ('i, 'v) genealogy) step" where
  "unlink_children i [] new_orphans g = Step (new_orphans, g)"
| "unlink_children i (c # cs) new_orphans g =
     (case remove_parent g c i of
        Fault f \<Rightarrow> Fault f
      | Step g' \<Rightarrow>
          unlink_children i cs
            (if is_orphan g' c then new_orphans @ [c] else new_orphans) g')"

fun unlink_parents :: "'i \<Rightarrow> 'i list \<Rightarrow> ('i, 'v) genealogy \<Rightarrow> ('i, 'v) genealogy step" where
  "unlink_parents i [] g = Step g"
| "unlink_parents i (p # ps) g =
     (if \<not> exists g p then Fault StalePointer
      else case remove_child g p i of
             Fault f \<Rightarrow> Fault f
           | Step g' \<Rightarrow> unlink_parents i ps g')"

definition remove_my_trace ::
  "('i, 'v) genealogy \<Rightarrow> 'i \<Rightarrow> ('i list \<times> ('i, 'v) genealogy) step" where
  "remove_my_trace g i =
     (case known_ids g i of
        None \<Rightarrow> Fault StalePointer
      | Some n \<Rightarrow>
          (case unlink_children i (children n) [] g of
             Fault f \<Rightarrow> Fault f
           | Step (new_orphans, g1) \<Rightarrow>
               (case known_ids g1 i of
                  None \<Rightarrow> Fault StalePointer
                | Some n1 \<Rightarrow>
                    (case unlink_parents i (parents n1) g1 of
                       Fault f \<Rightarrow> Fault f
                     | Step g2 \<Rightarrow> Step (new_orphans, g2)))))"

text \<open>\<^verbatim>\<open>VirusGenealogy::remove\<close> calls itself on every new orphan. The first
  argument bounds the depth of these nested calls; \<open>None\<close> says that the bound was too
  small.\<close>

fun remove_fuel ::
  "nat \<Rightarrow> ('i, 'v) genealogy \<Rightarrow> 'i \<Rightarrow> ('i, 'v) outcome option"
and remove_orphans ::
  "nat \<Rightarrow> ('i, 'v) genealogy \<Rightarrow> 'i list \<Rightarrow> ('i, 'v) outcome option" where
  "remove_fuel k g i =
     (if i = stem_id g then Some (Threw TriedToRemoveStemVirus g)
      else if \<not> exists g i then Some (Threw VirusNotFound g)
      else case k of
             0 \<Rightarrow> None
           | Suc k' \<Rightarrow>
               (case remove_my_trace g i of
                  Fault f \<Rightarrow> Some (Failed f)
                | Step (new_orphans, g1) \<Rightarrow>
                    (case remove_orphans k' g1 new_orphans of
                       Some (Returned g2) \<Rightarrow> Some (Returned (erase g2 i))
                     | r \<Rightarrow> r)))"
| "remove_orphans k g [] = Some (Returned g)"
| "remove_orphans k g (orphan # rest) =
     (case remove_fuel k g orphan of
        Some (Returned g') \<Rightarrow> remove_orphans k g' rest
      | r \<Rightarrow> r)"

subsection \<open>Observations and example genealogies\<close>

text \<open>The parent and child lists of a registered node; empty for an identifier that is
  not registered.\<close>

definition node_parents :: "('i, 'v) genealogy \<Rightarrow> 'i \<Rightarrow> 'i list" where
  "node_parents g i = (case known_ids g i of None \<Rightarrow> [] | Some n \<Rightarrow> parents n)"

definition node_children :: "('i, 'v) genealogy \<Rightarrow> 'i \<Rightarrow> 'i list" where
  "node_children g i = (case known_ids g i of None \<Rightarrow> [] | Some n \<Rightarrow> children n)"

text \<open>A payload that stores its identifier and whose constructor never throws, and the
  genealogies of the scenarios: the stem \<open>S\<close> alone; \<open>S\<close>, its child \<open>A\<close> and the
  child \<open>B\<close> of \<open>A\<close>; the same after \<open>connect(B, S)\<close>.\<close>

definition example_ctor :: "string \<Rightarrow> string option" where
  "example_ctor i = Some i"

definition stem_only :: "(string, string) genealogy" where
  "stem_only =
     \<lparr>stem_id = ''S'',
      known_ids = [''S'' \<mapsto> \<lparr>virus = ''S'', parents = [], children = []\<rparr>]\<rparr>"

definition lineage :: "(string, string) genealogy" where
  "lineage =
     \<lparr>stem_id = ''S'',
      known_ids =
        [''S'' \<mapsto> \<lparr>virus = ''S'', parents = [], children = [''A'']\<rparr>,
         ''A'' \<mapsto> \<lparr>virus = ''A'', parents = [''S''], children = [''B'']\<rparr>,
         ''B'' \<mapsto> \<lparr>virus = ''B'', parents = [''A''], children = []\<rparr>]\<rparr>"

definition lineage_joined :: "(string, string) genealogy" where
  "lineage_joined =
     \<lparr>stem_id = ''S'',
      known_ids =
        [''S'' \<mapsto> \<lparr>virus = ''S'', parents = [], children = [''A'', ''B'']\<rparr>,
         ''A'' \<mapsto> \<lparr>virus = ''A'', parents = [''S''], children = [''B'']\<rparr>,
         ''B'' \<mapsto> \<lparr>virus = ''B'', parents = [''A'', ''S''], children = []\<rparr>]\<rparr>"

text \<open>The stem \<open>S\<close> and its child \<open>A\<close>, and the same after \<open>connect(S, A)\<close>, which
  makes the stem a child of its own child.\<close>

definition stem_child :: "(string, string) genealogy" where
  "stem_child =
     \<lparr>stem_id = ''S'',
      known_ids =
        [''S'' \<mapsto> \<lparr>virus = ''S'', parents = [], children = [''A'']\<rparr>,
         ''A'' \<mapsto> \<lparr>virus = ''A'', parents = [''S''], children = []\<rparr>]\<rparr>"

definition stem_cycle :: "(string, string) genealogy" where
  "stem_cycle =
     \<lparr>stem_id = ''S'',
      known_ids =
        [''S'' \<mapsto> \<lparr>virus = ''S'', parents = [''A''], children = [''A'']\<rparr>,
         ''A'' \<mapsto> \<lparr>virus = ''A'', parents = [''S''], children = [''S'']\<rparr>]\<rparr>"

definition stem_cycle_torn :: "(string, string) genealogy" where
  "stem_cycle_torn =
     \<lparr>stem_id = ''S'',
      known_ids =
        [''S'' \<mapsto> \<lparr>virus = ''S'', parents = [], children = []\<rparr>,
         ''A'' \<mapsto> \<lparr>virus = ''A'', parents = [''S''], children = [''S'']\<rparr>]\<rparr>"

text \<open>The genealogy of \<open>S\<close>, \<open>A\<close> and \<open>B\<close> after \<open>connect(S, B)\<close>, which closes
  a cycle through the stem; the same after \<open>remove(B)\<close>, which throws; and after a
  following \<open>remove(A)\<close>, which returns and leaves \<open>B\<close> with a parent that is
  gone.\<close>

definition lineage_cycle :: "(string, string) genealogy" where
  "lineage_cycle =
     \<lparr>stem_id = ''S'',
      known_ids =
        [''S'' \<mapsto> \<lparr>virus = ''S'', parents = [''B''], children = [''A'']\<rparr>,
         ''A'' \<mapsto> \<lparr>virus = ''A'', parents = [''S''], children = [''B'']\<rparr>,
         ''B'' \<mapsto> \<lparr>virus = ''B'', parents = [''A''], children = [''S'']\<rparr>]\<rparr>"

definition lineage_torn :: "(string, string) genealogy" where
  "lineage_torn =
     \<lparr>stem_id = ''S'',
      known_ids =
        [''S'' \<mapsto> \<lparr>virus = ''S'', parents = [], children = [''A'']\<rparr>,
         ''A'' \<mapsto> \<lparr>virus = ''A'', parents = [''S''], children = []\<rparr>,
         ''B'' \<mapsto> \<lparr>virus = ''B'', parents = [''A''], children = [''S'']\<rparr>]\<rparr>"

definition lineage_dangling :: "(string, string) genealogy" where
  "lineage_dangling =
     \<lparr>stem_id = ''S'',
      known_ids =
        [''S'' \<mapsto> \<lparr>virus = ''S'', parents = [], children = []\<rparr>,
         ''B'' \<mapsto> \<lparr>virus = ''B'', parents = [''A''], children = [''S'']\<rparr>]\<rparr>"

subsection \<open>Reachable genealogies\<close>

text \<open>The graph a caller holds after a call, if the call returned or threw.\<close>

definition state_after :: "('i, 'v) outcome \<Rightarrow> ('i, 'v) genealogy option" where
  "state_after r = (case r of Returned g \<Rightarrow> Some g | Threw e g \<Rightarrow> Some g | Failed f \<Rightarrow> None)"

text \<open>The genealogies that the constructor and any sequence of calls of the mutating
  member functions lead to; a call that throws counts as well.\<close>

inductive reachable :: "('i \<Rightarrow> 'v option) \<Rightarrow> ('i, 'v) genealogy \<Rightarrow> bool"
  for ctor :: "'i \<Rightarrow> 'v option" where
  reachable_new: "VirusGenealogy ctor s = Value g \<Longrightarrow> reachable ctor g"
| reachable_create:
    "reachable ctor g \<Longrightarrow> state_after (create ctor g i p) = Some g' \<Longrightarrow> reachable ctor g'"
| reachable_create_multi:
    "reachable ctor g \<Longrightarrow> state_after (create_multi ctor g i ps) = Some g' \<Longrightarrow>
       reachable ctor g'"
| reachable_connect:
    "reachable ctor g \<Longrightarrow> state_after (connect g c p) = Some g' \<Longrightarrow> reachable ctor g'"
| reachable_remove:
    "reachable ctor g \<Longrightarrow> remove_fuel k g i = Some r \<Longrightarrow> state_after r = Some g' \<Longrightarrow>
       reachable ctor g'"

text \<open>What every call keeps: the stem identifier, the registration of the stem, and no
  identifier becomes registered that was not.\<close>

definition keeps_stem :: "('i, 'v) genealogy \<Rightarrow> ('i, 'v) genealogy \<Rightarrow> bool" where
  "keeps_stem g g' \<longleftrightarrow>
     stem_id g' = stem_id g \<and> (exists g (stem_id g) \<longrightarrow> exists g' (stem_id g))
     \<and> (\<forall>a. exists g' a \<longrightarrow> exists g a)"

subsection \<open>Well-formed genealogies\<close>

text \<open>Edge consistency: \<open>b\<close> is listed among the parents of \<open>a\<close> as often as \<open>a\<close> is
  listed among the children of \<open>b\<close>. As the lists of an identifier that is not registered
  are empty, this also says that every listed identifier is registered.\<close>

definition edge_consistent :: "('i, 'v) genealogy \<Rightarrow> bool" where
  "edge_consistent g \<longleftrightarrow>
     (\<forall>a b. count_list (node_parents g a) b = count_list (node_children g b) a)"

definition rooted :: "('i, 'v) genealogy \<Rightarrow> bool" where
  "rooted g \<longleftrightarrow> (\<forall>a. exists g a \<and> a \<noteq> stem_id g \<longrightarrow> node_parents g a \<noteq> [])"

definition edges :: "('i, 'v) genealogy \<Rightarrow> ('i \<times> 'i) set" where
  "edges g = {(p, c). p \<in> set (node_parents g c)}"

text \<open>The genealogies of the data model: finitely many nodes, the stem among them,
  consistent edges, a parent for every node but the stem, and no cycle.\<close>

definition well_formed :: "('i, 'v) genealogy \<Rightarrow> bool" where
  "well_formed g \<longleftrightarrow>
     finite {a. exists g a} \<and> exists g (stem_id g) \<and> edge_consistent g \<and> rooted g
     \<and> acyclic (edges g)"

text \<open>A node with both lists cut down to the identifiers that satisfy \<open>P\<close>.\<close>

definition restrict_node :: "('i \<Rightarrow> bool) \<Rightarrow> ('i, 'v) node \<Rightarrow> ('i, 'v) node" where
  "restrict_node P n = n\<lparr>parents := filter P (parents n), children := filter P (children n)\<rparr>"

text \<open>During a removal the nodes whose removal is under way are still registered, but
  no other node lists them any more. The set \<open>L\<close> holds the other registered nodes; it is
  well linked when it is closed under the two lists, consistent, free of nodes that are
  their own parent, and contains the stem, which has no parent.\<close>

definition well_linked :: "('i, 'v) genealogy \<Rightarrow> 'i set \<Rightarrow> bool" where
  "well_linked g L \<longleftrightarrow>
     finite L \<and> stem_id g \<in> L \<and> node_parents g (stem_id g) = []
     \<and> (\<forall>a\<in>L. exists g a \<and> a \<notin> set (node_parents g a)
           \<and> set (node_parents g a) \<subseteq> L \<and> set (node_children g a) \<subseteq> L)
     \<and> (\<forall>a\<in>L. \<forall>b\<in>L. count_list (node_parents g a) b = count_list (node_children g b) a)"

text \<open>The graph \<open>g1\<close> is \<open>g\<close> with the node \<open>i\<close> unlinked from the nodes of \<open>L\<close>.\<close>

definition unlinked ::
  "('i, 'v) genealogy \<Rightarrow> ('i, 'v) genealogy \<Rightarrow> 'i set \<Rightarrow> 'i \<Rightarrow> bool" where
  "unlinked g g1 L i \<longleftrightarrow>
     stem_id g1 = stem_id g
     \<and> (\<forall>a. known_ids g1 a =
           (if a \<in> L \<and> a \<noteq> i then map_option (restrict_node (\<lambda>x. x \<noteq> i)) (known_ids g a)
            else known_ids g a))"

text \<open>The graph \<open>g'\<close> is \<open>g\<close> after the removal of the nodes \<open>X\<close> of \<open>L\<close> and of every
  node of \<open>L\<close> that lost all its parents thereby: nothing outside \<open>L\<close> has changed; a node
  of \<open>L\<close> is either no longer registered or has its lists cut down to the nodes that
  still are; a node that is gone is in \<open>X\<close> or had parents, all of them gone; and a node
  that is left without parents had none before.\<close>

definition cascaded ::
  "('i, 'v) genealogy \<Rightarrow> ('i, 'v) genealogy \<Rightarrow> 'i set \<Rightarrow> 'i set \<Rightarrow> bool" where
  "cascaded g g' L X \<longleftrightarrow>
     stem_id g' = stem_id g
     \<and> (\<forall>a. a \<notin> L \<longrightarrow> known_ids g' a = known_ids g a)
     \<and> (\<forall>a\<in>L. exists g' a \<longrightarrow>
           known_ids g' a = map_option (restrict_node (exists g')) (known_ids g a))
     \<and> (\<forall>a\<in>X. \<not> exists g' a)
     \<and> (\<forall>a\<in>L. \<not> exists g' a \<longrightarrow>
           a \<in> X \<or> (node_parents g a \<noteq> [] \<and> (\<forall>p\<in>set (node_parents g a). \<not> exists g' p)))
     \<and> (\<forall>a\<in>L. exists g' a \<longrightarrow> node_parents g' a = [] \<longrightarrow> node_parents g a = [])"

text \<open>Between two graphs the order of every list is kept: what is left of the old
  entries comes first, in the old order, and new entries follow.\<close>

definition keeps_order :: "('i, 'v) genealogy \<Rightarrow> ('i, 'v) genealogy \<Rightarrow> bool" where
  "keeps_order g g' \<longleftrightarrow>
     (\<forall>a. exists g a \<and> exists g' a \<longrightarrow>
        (\<exists>xs. node_parents g' a = filter (exists g') (node_parents g a) @ xs)
        \<and> (\<exists>ys. node_children g' a = filter (exists g') (node_children g a) @ ys))"

text \<open>The genealogies reachable when no \<^verbatim>\<open>connect\<close> closes a cycle.\<close>

inductive reachable_acyclic :: "('i \<Rightarrow> 'v option) \<Rightarrow> ('i, 'v) genealogy \<Rightarrow> bool"
  for ctor :: "'i \<Rightarrow> 'v option" where
  acyclic_new: "VirusGenealogy ctor s = Value g \<Longrightarrow> reachable_acyclic ctor g"
| acyclic_create:
    "reachable_acyclic ctor g \<Longrightarrow> state_after (create ctor g i p) = Some g' \<Longrightarrow>
       reachable_acyclic ctor g'"
| acyclic_create_multi:
    "reachable_acyclic ctor g \<Longrightarrow> state_after (create_multi ctor g i ps) = Some g' \<Longrightarrow>
       reachable_acyclic ctor g'"
| acyclic_connect:
    "reachable_acyclic ctor g \<Longrightarrow> state_after (connect g c p) = Some g' \<Longrightarrow>
       acyclic (edges g') \<Longrightarrow> reachable_acyclic ctor g'"
| acyclic_remove:
    "reachable_acyclic ctor g \<Longrightarrow> remove_fuel k g i = Some r \<Longrightarrow> state_after r = Some g' \<Longrightarrow>
       reachable_acyclic ctor g'"

section \<open>Properties\<close>

subsection \<open>Basic facts about the store\<close>

lemma exists_update_node [simp]: "exists (update_node g a f) i = exists g i"
  by (simp add: exists_def update_node_def)

lemma stem_id_update_node [simp]: "stem_id (update_node g a f) = stem_id g"
  by (simp add: update_node_def)

lemma exists_add_parent [simp]: "exists (add_parent g c p) i = exists g i"
  by (simp add: add_parent_def)

lemma stem_id_add_parent [simp]: "stem_id (add_parent g c p) = stem_id g"
  by (simp add: add_parent_def)

lemma exists_insert_node [simp]: "exists (insert_node g a n) i = (i = a \<or> exists g i)"
  by (simp add: exists_def insert_node_def)

lemma stem_id_insert_node [simp]: "stem_id (insert_node g a n) = stem_id g"
  by (simp add: insert_node_def)

lemma exists_erase [simp]: "exists (erase g a) i = (i \<noteq> a \<and> exists g i)"
  by (simp add: exists_def erase_def)

lemma stem_id_erase [simp]: "stem_id (erase g a) = stem_id g"
  by (simp add: erase_def)

lemma erase_unregistered: "\<not> exists g i \<Longrightarrow> erase g i = g"
  by (simp add: exists_def erase_def fun_upd_idem)

lemma exists_all_iff: "exists_all g ids \<longleftrightarrow> (\<forall>i\<in>set ids. exists g i)"
  by (induction ids) auto

lemma lock_ids_Step: "lock_ids g ps = Step qs \<Longrightarrow> qs = ps \<and> (\<forall>p\<in>set ps. exists g p)"
proof (induction ps arbitrary: qs)
  case Nil
  then show ?case by simp
next
  case (Cons a ps)
  then show ?case by (cases "lock_ids g ps") (auto split: if_splits)
qed

lemma lock_ids_registered: "\<forall>p\<in>set ps. exists g p \<Longrightarrow> lock_ids g ps = Step ps"
  by (induction ps) auto

lemma get_parents_Value:
  "get_parents g i = Value ps \<Longrightarrow>
     exists g i \<and> node_parents g i = ps \<and> (\<forall>p\<in>set ps. exists g p)"
  unfolding get_parents_def node_parents_def exists_def
  by (cases "known_ids g i"; simp split: step.splits) (use lock_ids_Step exists_def in fastforce)

lemma get_parents_registered:
  "exists g i \<Longrightarrow> \<forall>p\<in>set (node_parents g i). exists g p \<Longrightarrow>
     get_parents g i = Value (node_parents g i)"
  by (auto simp: get_parents_def node_parents_def exists_def lock_ids_registered
      split: option.splits)

lemma node_parents_add_parent:
  "exists g c \<Longrightarrow>
     node_parents (add_parent g c p) i =
       (if i = c then node_parents g c @ [p] else node_parents g i)"
  by (auto simp: add_parent_def node_parents_def update_node_def exists_def
      split: option.split)

lemma node_children_add_parent:
  "exists g p \<Longrightarrow>
     node_children (add_parent g c p) i =
       (if i = p then node_children g p @ [c] else node_children g i)"
  by (auto simp: add_parent_def node_children_def update_node_def exists_def
      split: option.split)

subsection \<open>Removal of edges\<close>

declare remove_fuel.simps(1) [simp del]

lemma state_after_simps [simp]:
  "state_after (Returned g) = Some g"
  "state_after (Threw e g) = Some g"
  "state_after (Failed f) = None"
  by (simp_all add: state_after_def)

lemma known_ids_update_node [simp]:
  "known_ids (update_node g a f) = (known_ids g)(a := map_option f (known_ids g a))"
  by (simp add: update_node_def)

lemma erase_parent_Step:
  "erase_parent g pid ps = Step qs \<Longrightarrow> qs = remove1 pid ps \<and> pid \<in> set ps"
proof (induction ps arbitrary: qs)
  case Nil
  then show ?case by simp
next
  case (Cons a ps)
  then show ?case by (cases "erase_parent g pid ps") (auto split: if_splits)
qed

lemma erase_parent_registered:
  "\<forall>p\<in>set ps. exists g p \<Longrightarrow> pid \<in> set ps \<Longrightarrow> erase_parent g pid ps = Step (remove1 pid ps)"
  by (induction ps) auto

lemma erase_child_eq:
  "erase_child cid cs = (if cid \<in> set cs then Step (remove1 cid cs) else Fault UndefinedBehaviour)"
  by (induction cs) auto

lemma remove_parent_Step:
  assumes "remove_parent g c pid = Step g'"
  shows "g' = update_node g c (\<lambda>n. n\<lparr>parents := remove1 pid (node_parents g c)\<rparr>)"
    and "exists g c" and "pid \<in> set (node_parents g c)"
proof -
  from assms obtain n where n: "known_ids g c = Some n"
    by (cases "known_ids g c") (simp_all add: remove_parent_def)
  with assms obtain qs where qs: "erase_parent g pid (parents n) = Step qs"
    by (cases "erase_parent g pid (parents n)") (simp_all add: remove_parent_def)
  from erase_parent_Step [OF qs] n assms qs
  show "g' = update_node g c (\<lambda>n. n\<lparr>parents := remove1 pid (node_parents g c)\<rparr>)"
    and "pid \<in> set (node_parents g c)"
    by (simp_all add: remove_parent_def node_parents_def)
  from n show "exists g c" by (simp add: exists_def)
qed

lemma remove_child_Step:
  assumes "remove_child g p cid = Step g'"
  shows "g' = update_node g p (\<lambda>n. n\<lparr>children := remove1 cid (node_children g p)\<rparr>)"
    and "exists g p" and "cid \<in> set (node_children g p)"
proof -
  from assms obtain n where n: "known_ids g p = Some n"
    by (cases "known_ids g p") (simp_all add: remove_child_def)
  from n assms
  show "g' = update_node g p (\<lambda>n. n\<lparr>children := remove1 cid (node_children g p)\<rparr>)"
    and "cid \<in> set (node_children g p)"
    by (simp_all add: remove_child_def node_children_def erase_child_eq split: if_splits)
  from n show "exists g p" by (simp add: exists_def)
qed

text \<open>The unlinking loops keep the stem identifier and the registered identifiers.\<close>

lemma unlink_children_frame:
  "unlink_children i cs os g = Step (os', g') \<Longrightarrow>
     stem_id g' = stem_id g \<and> (\<forall>a. exists g' a = exists g a)"
proof (induction cs arbitrary: os g)
  case Nil
  then show ?case by simp
next
  case (Cons c cs)
  from Cons.prems obtain g1 where g1: "remove_parent g c i = Step g1"
    by (cases "remove_parent g c i") simp_all
  with Cons.prems have
    "unlink_children i cs (if is_orphan g1 c then os @ [c] else os) g1 = Step (os', g')"
    by simp
  from Cons.IH [OF this] remove_parent_Step(1) [OF g1] show ?case by simp
qed

lemma unlink_parents_frame:
  "unlink_parents i ps g = Step g' \<Longrightarrow>
     stem_id g' = stem_id g \<and> (\<forall>a. exists g' a = exists g a)"
proof (induction ps arbitrary: g)
  case Nil
  then show ?case by simp
next
  case (Cons p ps)
  from Cons.prems have ex: "exists g p" by (simp split: if_splits)
  with Cons.prems obtain g1 where g1: "remove_child g p i = Step g1"
    by (cases "remove_child g p i") simp_all
  with Cons.prems ex have "unlink_parents i ps g1 = Step g'" by simp
  from Cons.IH [OF this] remove_child_Step(1) [OF g1] show ?case by simp
qed

lemma remove_my_trace_frame:
  assumes "remove_my_trace g i = Step (os, g')"
  shows "stem_id g' = stem_id g \<and> (\<forall>a. exists g' a = exists g a)"
proof -
  from assms obtain n where n: "known_ids g i = Some n"
    by (cases "known_ids g i") (simp_all add: remove_my_trace_def)
  with assms obtain os1 g1 where 1: "unlink_children i (children n) [] g = Step (os1, g1)"
    by (cases "unlink_children i (children n) [] g") (auto simp: remove_my_trace_def)
  with assms n obtain n1 where n1: "known_ids g1 i = Some n1"
    by (cases "known_ids g1 i") (simp_all add: remove_my_trace_def)
  with assms n 1 have 2: "unlink_parents i (parents n1) g1 = Step g'"
    by (cases "unlink_parents i (parents n1) g1") (simp_all add: remove_my_trace_def)
  from unlink_children_frame [OF 1] unlink_parents_frame [OF 2] show ?thesis by simp
qed

subsection \<open>What every call keeps\<close>

lemma keeps_stem_refl: "keeps_stem g g" by (simp add: keeps_stem_def)

lemma keeps_stem_trans: "keeps_stem g g1 \<Longrightarrow> keeps_stem g1 g2 \<Longrightarrow> keeps_stem g g2"
  unfolding keeps_stem_def by metis

lemma remove_orphans_keeps_stem:
  fixes g :: "('i, 'v) genealogy"
  assumes step: "\<And>(g :: ('i, 'v) genealogy) i r g'. remove_fuel k g i = Some r \<Longrightarrow> state_after r = Some g' \<Longrightarrow> keeps_stem g g'"
  shows "remove_orphans k g os = Some r \<Longrightarrow> state_after r = Some g' \<Longrightarrow> keeps_stem g g'"
proof (induction os arbitrary: g)
  case Nil
  then show ?case by (auto simp: keeps_stem_refl)
next
  case (Cons orphan rest)
  show ?case
  proof (cases "remove_fuel k g orphan")
    case None
    with Cons.prems show ?thesis by simp
  next
    case (Some r1)
    show ?thesis
    proof (cases r1)
      case (Returned g1)
      with Some Cons.prems have "remove_orphans k g1 rest = Some r" by simp
      from Cons.IH [OF this Cons.prems(2)] step [OF Some] Returned
      show ?thesis by (auto intro: keeps_stem_trans)
    next
      case (Threw e g1)
      with Some Cons.prems have "r = r1" by simp
      with step [OF Some] Cons.prems(2) show ?thesis by auto
    next
      case (Failed f)
      with Some Cons.prems show ?thesis by auto
    qed
  qed
qed

lemma remove_fuel_keeps_stem:
  fixes g :: "('i, 'v) genealogy"
  shows "remove_fuel k g i = Some r \<Longrightarrow> state_after r = Some g' \<Longrightarrow> keeps_stem g g'"
proof (induction k arbitrary: g i r g')
  case 0
  then show ?case
    by (auto simp: remove_fuel.simps keeps_stem_refl split: if_splits)
next
  case (Suc k)
  have step: "\<And>(g :: ('i, 'v) genealogy) i r g'.
      remove_fuel k g i = Some r \<Longrightarrow> state_after r = Some g' \<Longrightarrow> keeps_stem g g'"
    by (rule Suc.IH)
  show ?case
  proof (cases "i = stem_id g \<or> \<not> exists g i")
    case True
    with Suc.prems show ?thesis
      by (auto simp: remove_fuel.simps keeps_stem_refl split: if_splits)
  next
    case False
    show ?thesis
    proof (cases "remove_my_trace g i")
      case (Fault f)
      with False Suc.prems show ?thesis by (auto simp: remove_fuel.simps)
    next
      case (Step x)
      obtain os g1 where x: "x = (os, g1)" by (cases x)
      from remove_my_trace_frame [OF Step [unfolded x]]
      have k1: "keeps_stem g g1" by (simp add: keeps_stem_def)
      from False Step x Suc.prems(1)
      have unf: "(case remove_orphans k g1 os of
                    Some (Returned g2) \<Rightarrow> Some (Returned (erase g2 i))
                  | r \<Rightarrow> r) = Some r"
        by (simp add: remove_fuel.simps)
      show ?thesis
      proof (cases "remove_orphans k g1 os")
        case None
        with unf show ?thesis by simp
      next
        case (Some r2)
        show ?thesis
        proof (cases r2)
          case (Returned g2)
          have "keeps_stem g1 g2"
            using Returned by (intro remove_orphans_keeps_stem [OF step Some]) auto
          moreover from unf Some Returned Suc.prems(2) have "g' = erase g2 i"
            by auto
          ultimately show ?thesis using k1 False
            unfolding keeps_stem_def by (metis exists_erase stem_id_erase)
        next
          case (Threw e g2)
          have "keeps_stem g1 g2"
            using Threw by (intro remove_orphans_keeps_stem [OF step Some]) auto
          moreover from unf Some Threw Suc.prems(2) have "g' = g2"
            by auto
          ultimately show ?thesis using k1 keeps_stem_trans by blast
        next
          case (Failed f)
          with unf Some Suc.prems(2) show ?thesis by auto
        qed
      qed
    qed
  qed
qed


lemma exists_fold_add_parent [simp]:
  "exists (fold (\<lambda>parent_id g'. add_parent g' i parent_id) ps g) a = exists g a"
  by (induction ps arbitrary: g) simp_all

lemma stem_id_fold_add_parent [simp]:
  "stem_id (fold (\<lambda>parent_id g'. add_parent g' i parent_id) ps g) = stem_id g"
  by (induction ps arbitrary: g) simp_all

lemma create_multi_Threw: "create_multi ctor g i ps = Threw e g' \<Longrightarrow> g' = g"
  by (auto simp: create_multi_def erase_unregistered split: if_splits option.splits)

lemma create_multi_Returned:
  "create_multi ctor g i ps = Returned g' \<Longrightarrow>
     stem_id g' = stem_id g \<and> (\<forall>a. exists g a \<longrightarrow> exists g' a)"
  by (auto simp: create_multi_def split: if_splits option.splits)

lemma create_multi_keeps_stem:
  assumes "state_after (create_multi ctor g i ps) = Some g'"
  shows "stem_id g' = stem_id g \<and> (exists g (stem_id g) \<longrightarrow> exists g' (stem_id g))"
proof (cases "create_multi ctor g i ps")
  case (Returned g1)
  with assms create_multi_Returned [OF Returned] show ?thesis by simp
next
  case (Threw e g1)
  with assms create_multi_Threw [OF Threw] show ?thesis by simp
next
  case (Failed f)
  with assms show ?thesis by simp
qed

lemma connect_Threw: "connect g c p = Threw e g' \<Longrightarrow> g' = g"
  by (auto simp: connect_def split: if_splits answer.splits)

lemma connect_Returned:
  "connect g c p = Returned g' \<Longrightarrow> stem_id g' = stem_id g \<and> (\<forall>a. exists g' a = exists g a)"
  by (auto simp: connect_def split: if_splits answer.splits)

lemma connect_keeps_stem:
  assumes "state_after (connect g c p) = Some g'"
  shows "stem_id g' = stem_id g \<and> (exists g (stem_id g) \<longrightarrow> exists g' (stem_id g))"
proof (cases "connect g c p")
  case (Returned g1)
  with assms connect_Returned [OF Returned] show ?thesis by simp
next
  case (Threw e g1)
  with assms connect_Threw [OF Threw] show ?thesis by simp
next
  case (Failed f)
  with assms show ?thesis by simp
qed

lemma create_as_multi: "create ctor g i p = create_multi ctor g i [p]"
  by (simp add: create_def create_multi_def split: option.split)

subsection \<open>Queries\<close>

text \<open>C9. \<^verbatim>\<open>exists\<close> on the empty vector of identifiers is true, and on any vector
  it is true exactly when every identifier in it is registered.\<close>

theorem exists_all_each:
  "exists_all g [] \<and> (exists_all g ids \<longleftrightarrow> (\<forall>i\<in>set ids. exists g i))"
  by (simp add: exists_all_iff)

theorem exists_all_each_witness:
  "exists_all stem_only [''S'', ''S''] \<and> \<not> exists_all stem_only [''S'', ''A'']"
  using exists_all_each [of stem_only "[''S'', ''S'']"]
    exists_all_each [of stem_only "[''S'', ''A'']"]
  by (simp add: exists_def stem_only_def)

lemma get_children_end_registered:
  "exists g i \<Longrightarrow> get_children_end g i = Faulted UndefinedBehaviour"
  by (cases "known_ids g i") (simp_all add: exists_def get_children_end_def node_end_def vector_at_def)

lemma get_children_begin_registered:
  "exists g i \<Longrightarrow>
     get_children_begin g i =
       (if node_children g i = [] then Faulted UndefinedBehaviour else Value (Child_ptr i 0))"
  by (cases "known_ids g i")
    (simp_all add: exists_def get_children_begin_def node_begin_def vector_at_def
      node_children_def)

lemma get_children_NotFound:
  "get_children_begin g i = Raised VirusNotFound \<longleftrightarrow> \<not> exists g i"
  "get_children_end g i = Raised VirusNotFound \<longleftrightarrow> \<not> exists g i"
  by (cases "known_ids g i";
      simp add: exists_def get_children_begin_def get_children_end_def node_begin_def
        node_end_def vector_at_def)+

text \<open>C8, at a node without children. \<^verbatim>\<open>Node::begin\<close> takes the address of
  \<^verbatim>\<open>children[0]\<close> and \<^verbatim>\<open>Node::end\<close> that of
  \<^verbatim>\<open>children[children.size()]\<close>; on the stem of a new genealogy both positions
  are outside the vector, so neither call returns an iterator.\<close>

theorem children_range_of_leaf:
  "get_children_begin stem_only ''S'' = Faulted UndefinedBehaviour
   \<and> get_children_end stem_only ''S'' = Faulted UndefinedBehaviour"
  by (simp add: get_children_begin_def get_children_end_def node_begin_def node_end_def
      vector_at_def stem_only_def)

subsection \<open>Creation\<close>

text \<open>C10. The single-parent \<^verbatim>\<open>create\<close> is the multi-parent one on the
  one-element vector: the same exception in the same states and the same graph after a
  return.\<close>

theorem create_single_is_multi:
  "create ctor g i p = create_multi ctor g i [p]"
  by (simp add: create_def create_multi_def split: option.split)

text \<open>C5 as stated fails on an identifier that is registered: the first check of
  \<^verbatim>\<open>create\<close> throws \<^verbatim>\<open>VirusAlreadyCreated\<close> for the stem, also with an
  empty vector of parents.\<close>

theorem create_no_parents_registered:
  "create_multi example_ctor stem_only ''S'' [] = Threw VirusAlreadyCreated stem_only"
  by (simp add: create_multi_def exists_def stem_only_def)

text \<open>C5, amended. With an empty vector of parents, \<^verbatim>\<open>create\<close> returns without
  any change to the graph when the identifier is not registered, and throws
  \<^verbatim>\<open>VirusAlreadyCreated\<close>, again without any change, when it is.\<close>

theorem create_no_parents:
  "create_multi ctor g i [] =
     (if exists g i then Threw VirusAlreadyCreated g else Returned g)"
  by (simp add: create_multi_def)

theorem create_no_parents_witness:
  "create_multi example_ctor stem_only ''A'' [] = Returned stem_only
   \<and> \<not> exists stem_only ''A''"
  using create_no_parents [of example_ctor stem_only "''A''"]
  by (simp add: exists_def stem_only_def)

subsection \<open>Connection\<close>

lemma connect_twice:
  assumes "connect g c p = Returned g1"
  shows "connect g1 c p = Returned g1"
proof -
  from assms have ex: "exists g c" "exists g p"
    by (auto simp: connect_def split: if_splits)
  from assms ex obtain ps where ps: "get_parents g c = Value ps"
    by (cases "get_parents g c") (simp_all add: connect_def)
  show ?thesis
  proof (cases "p \<in> set ps")
    case True
    with assms ex ps show ?thesis by (simp add: connect_def)
  next
    case False
    with assms ex ps have g1: "g1 = add_parent g c p" by (simp add: connect_def)
    have np: "node_parents g c = ps" "\<forall>q\<in>set ps. exists g q"
      using get_parents_Value [OF ps] by simp_all
    have "get_parents g1 c = Value (ps @ [p])"
      unfolding g1 using get_parents_registered [of "add_parent g c p" c] ex np
      by (simp add: node_parents_add_parent)
    then show ?thesis using ex by (simp add: connect_def g1)
  qed
qed

lemma connect_new_edge:
  assumes "exists g c" "exists g p" "get_parents g c = Value ps" "p \<notin> set ps"
  shows "connect g c p = Returned (add_parent g c p)"
    and "get_parents (add_parent g c p) c = Value (ps @ [p])"
proof -
  show "connect g c p = Returned (add_parent g c p)"
    using assms by (simp add: connect_def)
  have np: "node_parents g c = ps" "\<forall>q\<in>set ps. exists g q"
    using get_parents_Value [OF assms(3)] by simp_all
  show "get_parents (add_parent g c p) c = Value (ps @ [p])"
    using get_parents_registered [of "add_parent g c p" c] assms np
    by (simp add: node_parents_add_parent)
qed

lemma connect_twice_state:
  assumes "state_after (connect g c p) = Some g1"
  shows "state_after (connect g1 c p) = Some g1"
proof (cases "connect g c p")
  case (Returned g2)
  with assms have "connect g c p = Returned g1" by simp
  from connect_twice [OF this] show ?thesis by simp
next
  case (Threw e g2)
  with assms connect_Threw [OF Threw] have "g1 = g" by simp
  with assms show ?thesis by simp
next
  case (Failed f)
  with assms show ?thesis by simp
qed

lemma add_parent_lineage: "add_parent lineage ''B'' ''S'' = lineage_joined"
  by (simp add: add_parent_def update_node_def lineage_def lineage_joined_def fun_eq_iff)

subsection \<open>The stem\<close>

lemma reachable_stem: "reachable ctor g \<Longrightarrow> exists g (stem_id g)"
proof (induction rule: reachable.induct)
  case (reachable_new s g)
  then show ?case
    by (auto simp: VirusGenealogy_def exists_def split: option.splits)
next
  case (reachable_create g i p g')
  then show ?case
    using create_multi_keeps_stem [of ctor g i "[p]" g']
    by (simp add: create_as_multi)
next
  case (reachable_create_multi g i ps g')
  then show ?case using create_multi_keeps_stem [of ctor g i ps g'] by simp
next
  case (reachable_connect g c p g')
  then show ?case using connect_keeps_stem [of g c p g'] by simp
next
  case (reachable_remove g k i r g')
  from remove_fuel_keeps_stem [OF reachable_remove(2,3)] reachable_remove(4)
  show ?case by (simp add: keeps_stem_def)
qed

text \<open>C2. In every reachable genealogy the stem is registered, and
  \<^verbatim>\<open>remove(stem_id)\<close> throws \<^verbatim>\<open>TriedToRemoveStemVirus\<close> and leaves the
  graph as it was, whatever the bound on the nested calls.\<close>

theorem stem_permanent:
  "reachable ctor g \<Longrightarrow>
     exists g (stem_id g)
     \<and> remove_fuel k g (stem_id g) = Some (Threw TriedToRemoveStemVirus g)"
proof
  assume "reachable ctor g"
  then show "exists g (stem_id g)" by (rule reachable_stem)
  show "remove_fuel k g (stem_id g) = Some (Threw TriedToRemoveStemVirus g)"
    by (subst remove_fuel.simps) simp
qed

theorem stem_permanent_witness:
  "exists stem_only ''S''
   \<and> remove_fuel 1 stem_only ''S'' = Some (Threw TriedToRemoveStemVirus stem_only)"
proof -
  have "VirusGenealogy example_ctor ''S'' = Value stem_only"
    by (simp add: VirusGenealogy_def make_node_def example_ctor_def stem_only_def)
  then have "reachable example_ctor stem_only" by (rule reachable_new)
  from stem_permanent [OF this, of 1] show ?thesis by (simp add: stem_only_def)
qed

subsection \<open>Creation from several parents\<close>

lemma node_parents_fold_add_parent:
  "exists g i \<Longrightarrow>
     node_parents (fold (\<lambda>parent_id g'. add_parent g' i parent_id) ps g) a =
       (if a = i then node_parents g i @ ps else node_parents g a)"
  by (induction ps arbitrary: g) (simp_all add: node_parents_add_parent)

lemma node_children_fold_add_parent:
  "\<forall>p\<in>set ps. exists g p \<Longrightarrow>
     node_children (fold (\<lambda>parent_id g'. add_parent g' i parent_id) ps g) a =
       node_children g a @ replicate (count_list ps a) i"
proof (induction ps arbitrary: g)
  case Nil
  then show ?case by simp
next
  case (Cons p ps)
  then show ?case
    by (simp add: node_children_add_parent replicate_append_same)
qed

lemma node_parents_insert_node:
  "node_parents (insert_node g i n) a = (if a = i then parents n else node_parents g a)"
  by (simp add: node_parents_def insert_node_def)

lemma node_children_insert_node:
  "node_children (insert_node g i n) a = (if a = i then children n else node_children g a)"
  by (simp add: node_children_def insert_node_def)

lemma node_lists_unregistered:
  "\<not> exists g i \<Longrightarrow> node_parents g i = [] \<and> node_children g i = []"
  by (simp add: exists_def node_parents_def node_children_def)

text \<open>C4, amended. For an identifier \<open>i\<close> that is not registered: if some identifier
  of \<open>ps\<close> is not registered, the multi-parent \<^verbatim>\<open>create\<close> throws
  \<^verbatim>\<open>VirusNotFound\<close> and the graph is as before, so no node was created. For a
  registered \<open>i\<close> it throws \<^verbatim>\<open>VirusAlreadyCreated\<close> instead, and for an empty
  \<open>ps\<close> and an \<open>i\<close> that is not registered it returns without any change. When
  the call returns on a non-empty \<open>ps\<close>, then \<open>i\<close> was not registered and all of \<open>ps\<close>
  were; afterwards \<open>i\<close> is registered, \<^verbatim>\<open>get_parents(i)\<close> is \<open>ps\<close> itself, in the
  given order and with its duplicates, every node has received \<open>i\<close> at the end of its
  children once for each of its occurrences in \<open>ps\<close>, and no other parent list has
  changed.\<close>

theorem create_multi_links:
  "(\<not> exists g i \<and> \<not> exists_all g ps \<longrightarrow> create_multi ctor g i ps = Threw VirusNotFound g)
   \<and> (exists g i \<longrightarrow> create_multi ctor g i ps = Threw VirusAlreadyCreated g)
   \<and> (\<not> exists g i \<longrightarrow> create_multi ctor g i [] = Returned g)
   \<and> (create_multi ctor g i ps = Returned g' \<and> ps \<noteq> [] \<longrightarrow>
        \<not> exists g i \<and> exists_all g ps
        \<and> (\<forall>a. exists g' a \<longleftrightarrow> a = i \<or> exists g a)
        \<and> get_parents g' i = Value ps
        \<and> (\<forall>a. a \<noteq> i \<longrightarrow> node_parents g' a = node_parents g a)
        \<and> (\<forall>a. node_children g' a = node_children g a @ replicate (count_list ps a) i))"
proof (intro conjI impI)
  assume "\<not> exists g i \<and> \<not> exists_all g ps"
  then show "create_multi ctor g i ps = Threw VirusNotFound g"
    by (simp add: create_multi_def)
next
  assume "exists g i"
  then show "create_multi ctor g i ps = Threw VirusAlreadyCreated g"
    by (simp add: create_multi_def)
next
  assume "\<not> exists g i"
  then show "create_multi ctor g i [] = Returned g"
    by (simp add: create_multi_def)
next
  assume a: "create_multi ctor g i ps = Returned g' \<and> ps \<noteq> []"
  then show ni: "\<not> exists g i" and ea: "exists_all g ps"
    by (auto simp: create_multi_def split: if_splits)
  from a ni ea obtain n where n: "make_node ctor i = Some n"
    and g': "g' = fold (\<lambda>parent_id g'. add_parent g' i parent_id) ps (insert_node g i n)"
    by (auto simp: create_multi_def split: option.splits)
  from n have n0: "parents n = []" "children n = []"
    by (auto simp: make_node_def)
  from ea have reg: "\<forall>p\<in>set ps. exists (insert_node g i n) p"
    by (simp add: exists_all_iff)
  show ex: "\<forall>a. exists g' a \<longleftrightarrow> a = i \<or> exists g a" by (simp add: g')
  have np: "node_parents g' i = ps"
    by (simp add: g' node_parents_fold_add_parent node_parents_insert_node n0)
  from ea ex have "\<forall>p\<in>set (node_parents g' i). exists g' p"
    by (simp add: np exists_all_iff)
  with get_parents_registered [of g' i] ex np show "get_parents g' i = Value ps" by simp
  show "\<forall>a. a \<noteq> i \<longrightarrow> node_parents g' a = node_parents g a"
    by (simp add: g' node_parents_fold_add_parent node_parents_insert_node)
  show "\<forall>a. node_children g' a = node_children g a @ replicate (count_list ps a) i"
    using ni reg
    by (simp add: g' node_children_fold_add_parent node_children_insert_node n0
        node_lists_unregistered)
qed

text \<open>C4 as stated fails in two places: with a registered \<open>i\<close> the call throws
  \<^verbatim>\<open>VirusAlreadyCreated\<close> although a listed parent is missing, and with an empty
  \<open>ps\<close> the call returns without creating \<open>i\<close>, so that \<^verbatim>\<open>get_parents(i)\<close>
  throws afterwards.\<close>

theorem create_multi_links_counterexample:
  "create_multi example_ctor stem_only ''S'' [''X''] = Threw VirusAlreadyCreated stem_only
   \<and> create_multi example_ctor stem_only ''A'' [] = Returned stem_only
   \<and> get_parents stem_only ''A'' = Raised VirusNotFound"
  by (simp add: create_multi_def exists_def get_parents_def stem_only_def)

theorem create_multi_links_witness:
  "create_multi example_ctor stem_only ''B'' [''S'', ''A''] = Threw VirusNotFound stem_only
   \<and> (\<exists>g'. create_multi example_ctor stem_only ''B'' [''S'', ''S''] = Returned g'
         \<and> get_parents g' ''B'' = Value [''S'', ''S'']
         \<and> node_children g' ''S'' = [''B'', ''B''])"
proof -
  have 1: "\<not> exists stem_only ''B'' \<and> \<not> exists_all stem_only [''S'', ''A'']"
    by (simp add: exists_def stem_only_def)
  obtain g' where 2: "create_multi example_ctor stem_only ''B'' [''S'', ''S''] = Returned g'"
    by (simp add: create_multi_def exists_def stem_only_def make_node_def example_ctor_def)
  have 3: "node_children stem_only ''S'' = []"
    by (simp add: node_children_def stem_only_def)
  from 1 create_multi_links [of stem_only "''B''" "[''S'', ''A'']" example_ctor]
  have a: "create_multi example_ctor stem_only ''B'' [''S'', ''A''] = Threw VirusNotFound stem_only"
    by blast
  from 2 have "create_multi example_ctor stem_only ''B'' [''S'', ''S''] = Returned g'
      \<and> [''S'', ''S''] \<noteq> []"
    by simp
  with create_multi_links [of stem_only "''B''" "[''S'', ''S'']" example_ctor g']
  have "get_parents g' ''B'' = Value [''S'', ''S'']"
    and "node_children g' ''S'' =
           node_children stem_only ''S'' @ replicate (count_list [''S'', ''S''] ''S'') ''B''"
    by blast+
  with a 2 3 show ?thesis by (simp add: numeral_2_eq_2)
qed

subsection \<open>The two loops of \<^verbatim>\<open>remove_my_trace\<close>\<close>

lemma filter_remove1_same: "filter (\<lambda>x. x \<noteq> i) (remove1 i xs) = filter (\<lambda>x. x \<noteq> i) xs"
  by (induction xs) auto

lemma filter_neq_id: "i \<notin> set xs \<Longrightarrow> filter (\<lambda>x. x \<noteq> i) xs = xs"
  by (induction xs) auto

lemma remove1_count_one:
  "count_list xs i = Suc 0 \<Longrightarrow> remove1 i xs = filter (\<lambda>x. x \<noteq> i) xs"
proof (induction xs)
  case Nil
  then show ?case by simp
next
  case (Cons x xs)
  show ?case
  proof (cases "x = i")
    case True
    with Cons.prems have "i \<notin> set xs" by (simp add: count_list_0_iff)
    with True show ?thesis by (simp add: filter_neq_id)
  next
    case False
    with Cons show ?thesis by simp
  qed
qed

lemma count_list_remove1_same:
  "i \<in> set xs \<Longrightarrow> Suc (count_list (remove1 i xs) i) = count_list xs i"
  by (induction xs) auto

lemma count_list_remove1_other:
  "b \<noteq> i \<Longrightarrow> count_list (remove1 i xs) b = count_list xs b"
  by (induction xs) auto

lemma count_list_filter_keep: "P b \<Longrightarrow> count_list (filter P xs) b = count_list xs b"
  by (induction xs) auto

lemma count_list_pos_iff: "0 < count_list xs x \<longleftrightarrow> x \<in> set xs"
  using count_list_0_iff [of xs x] by auto

lemma filter_neq_Nil_count:
  "filter (\<lambda>x. x \<noteq> i) xs = [] \<Longrightarrow> count_list xs i = length xs"
  by (induction xs) (auto split: if_splits)

lemma remove1_Nil_iff: "i \<in> set xs \<Longrightarrow> remove1 i xs = [] \<longleftrightarrow> xs = [i]"
  by (cases xs) (auto split: if_splits)

text \<open>The lists of a node whose parents or children were rewritten.\<close>

lemma node_lists_parents_map:
  assumes "known_ids g' a = map_option (\<lambda>n. n\<lparr>parents := F (parents n)\<rparr>) (known_ids g a)"
    and "F [] = []"
  shows "node_parents g' a = F (node_parents g a)"
    and "node_children g' a = node_children g a"
    and "exists g' a = exists g a"
  using assms by (cases "known_ids g a"; simp add: node_parents_def node_children_def exists_def)+

lemma node_lists_children_map:
  assumes "known_ids g' a = map_option (\<lambda>n. n\<lparr>children := F (children n)\<rparr>) (known_ids g a)"
    and "F [] = []"
  shows "node_parents g' a = node_parents g a"
    and "node_children g' a = F (node_children g a)"
    and "exists g' a = exists g a"
  using assms by (cases "known_ids g a"; simp add: node_parents_def node_children_def exists_def)+

lemma node_lists_same:
  assumes "known_ids g' a = known_ids g a"
  shows "node_parents g' a = node_parents g a"
    and "node_children g' a = node_children g a"
    and "exists g' a = exists g a"
  using assms by (simp_all add: node_parents_def node_children_def exists_def)

lemma node_parents_exists: "node_parents g a \<noteq> [] \<Longrightarrow> exists g a"
  by (cases "known_ids g a") (simp_all add: node_parents_def exists_def)

lemma node_children_exists: "node_children g a \<noteq> [] \<Longrightarrow> exists g a"
  by (cases "known_ids g a") (simp_all add: node_children_def exists_def)

lemma remove_parent_ok:
  assumes "\<forall>p\<in>set (node_parents g c). exists g p" and "i \<in> set (node_parents g c)"
  shows "remove_parent g c i =
           Step (update_node g c (\<lambda>n. n\<lparr>parents := remove1 i (parents n)\<rparr>))"
proof -
  from assms(2) have "exists g c" by (intro node_parents_exists) auto
  then obtain n where n: "known_ids g c = Some n" by (auto simp: exists_def)
  with assms have "erase_parent g i (parents n) = Step (remove1 i (parents n))"
    by (intro erase_parent_registered) (simp_all add: node_parents_def)
  with n show ?thesis by (simp add: remove_parent_def update_node_def)
qed

lemma remove_child_ok:
  assumes "i \<in> set (node_children g p)"
  shows "remove_child g p i =
           Step (update_node g p (\<lambda>n. n\<lparr>children := remove1 i (children n)\<rparr>))"
proof -
  from assms have "exists g p" by (intro node_children_exists) auto
  then obtain n where n: "known_ids g p = Some n" by (auto simp: exists_def)
  with assms show ?thesis
    by (simp add: remove_child_def update_node_def erase_child_eq node_children_def)
qed

lemma node_parents_remove1:
  "node_parents (update_node g c (\<lambda>n. n\<lparr>parents := remove1 i (parents n)\<rparr>)) a =
     (if a = c then remove1 i (node_parents g c) else node_parents g a)"
  by (cases "known_ids g c") (simp_all add: node_parents_def)

lemma node_children_remove1:
  "node_children (update_node g p (\<lambda>n. n\<lparr>children := remove1 i (children n)\<rparr>)) a =
     (if a = p then remove1 i (node_children g p) else node_children g a)"
  by (cases "known_ids g p") (simp_all add: node_children_def)

lemma is_orphan_iff: "exists g c \<Longrightarrow> is_orphan g c \<longleftrightarrow> node_parents g c = []"
  by (cases "known_ids g c") (simp_all add: is_orphan_def node_parents_def exists_def)

lemma unlink_children_spec:
  assumes "\<forall>c\<in>set cs. count_list (node_parents g c) i = count_list cs c"
    and "\<forall>c\<in>set cs. \<forall>p\<in>set (node_parents g c). exists g p"
  shows "\<exists>os2 g'. unlink_children i cs os g = Step (os @ os2, g')
      \<and> stem_id g' = stem_id g
      \<and> (\<forall>a. known_ids g' a =
            (if a \<in> set cs
             then map_option (\<lambda>n. n\<lparr>parents := filter (\<lambda>x. x \<noteq> i) (parents n)\<rparr>) (known_ids g a)
             else known_ids g a))
      \<and> distinct os2
      \<and> set os2 = {c \<in> set cs. filter (\<lambda>x. x \<noteq> i) (node_parents g c) = []}"
  using assms
proof (induction cs arbitrary: os g)
  case Nil
  then show ?case by simp
next
  case (Cons c cs)
  let ?ps = "node_parents g c"
  let ?g1 = "update_node g c (\<lambda>n. n\<lparr>parents := remove1 i (parents n)\<rparr>)"
  let ?F = "\<lambda>n::('a, 'b) node. n\<lparr>parents := filter (\<lambda>x. x \<noteq> i) (parents n)\<rparr>"
  from Cons.prems(1) have cnt: "count_list ?ps i = Suc (count_list cs c)" by simp
  then have mem: "i \<in> set ?ps" using count_list_pos_iff [of ?ps i] by simp
  then have exc: "exists g c" by (intro node_parents_exists) auto
  from Cons.prems(2) have "\<forall>p\<in>set ?ps. exists g p" by simp
  from remove_parent_ok [OF this mem] have rp: "remove_parent g c i = Step ?g1" .
  have np1: "\<And>a. node_parents ?g1 a = (if a = c then remove1 i ?ps else node_parents g a)"
    by (rule node_parents_remove1)
  have H1: "\<forall>x\<in>set cs. count_list (node_parents ?g1 x) i = count_list cs x"
  proof
    fix x assume x: "x \<in> set cs"
    show "count_list (node_parents ?g1 x) i = count_list cs x"
    proof (cases "x = c")
      case True
      with cnt count_list_remove1_same [OF mem] show ?thesis by (simp add: np1)
    next
      case False
      with x Cons.prems(1) show ?thesis by (simp add: np1)
    qed
  qed
  have H2: "\<forall>x\<in>set cs. \<forall>p\<in>set (node_parents ?g1 x). exists ?g1 p"
  proof (intro ballI)
    fix x p assume x: "x \<in> set cs" and p: "p \<in> set (node_parents ?g1 x)"
    from p have "p \<in> set (node_parents g x)"
      using set_remove1_subset [of i "node_parents g c"]
      by (auto simp: np1 split: if_splits)
    with x Cons.prems(2) show "exists ?g1 p" by simp
  qed
  let ?os = "if is_orphan ?g1 c then os @ [c] else os"
  from Cons.IH [OF H1 H2, of ?os] obtain os2 g' where
    run: "unlink_children i cs ?os ?g1 = Step (?os @ os2, g')"
    and st: "stem_id g' = stem_id g"
    and ks: "\<forall>a. known_ids g' a = (if a \<in> set cs then map_option ?F (known_ids ?g1 a)
                else known_ids ?g1 a)"
    and d2: "distinct os2"
    and s2: "set os2 = {x \<in> set cs. filter (\<lambda>x. x \<noteq> i) (node_parents ?g1 x) = []}"
    by auto
  have s2': "set os2 = {x \<in> set cs. filter (\<lambda>x. x \<noteq> i) (node_parents g x) = []}"
    unfolding s2 by (auto simp: np1 filter_remove1_same)
  have orph: "is_orphan ?g1 c \<longleftrightarrow> ?ps = [i]"
    using is_orphan_iff [of ?g1 c] exc remove1_Nil_iff [OF mem] by (simp add: np1)
  let ?new = "(if is_orphan ?g1 c then [c] else []) @ os2"
  have res: "unlink_children i (c # cs) os g = Step (os @ ?new, g')"
    using rp run by simp
  have known: "\<forall>a. known_ids g' a =
      (if a \<in> set (c # cs) then map_option ?F (known_ids g a) else known_ids g a)"
  proof
    fix a
    show "known_ids g' a =
      (if a \<in> set (c # cs) then map_option ?F (known_ids g a) else known_ids g a)"
    proof (cases "a = c")
      case False
      with ks show ?thesis by simp
    next
      case True
      show ?thesis
      proof (cases "c \<in> set cs")
        case True
        with ks \<open>a = c\<close> show ?thesis
          by (cases "known_ids g c") (simp_all add: filter_remove1_same)
      next
        case False
        then have "count_list cs c = 0" by (simp add: count_list_0_iff)
        with cnt have "remove1 i ?ps = filter (\<lambda>x. x \<noteq> i) ?ps"
          by (simp add: remove1_count_one)
        with ks False \<open>a = c\<close> show ?thesis
          by (cases "known_ids g c") (simp_all add: node_parents_def)
      qed
    qed
  qed
  have dist: "distinct ?new"
  proof (cases "is_orphan ?g1 c")
    case True
    with orph cnt have "count_list cs c = 0" by simp
    then have "c \<notin> set cs" by (simp add: count_list_0_iff)
    with s2' d2 True show ?thesis by auto
  next
    case False
    with d2 show ?thesis by simp
  qed
  have sets: "set ?new = {x \<in> set (c # cs). filter (\<lambda>x. x \<noteq> i) (node_parents g x) = []}"
  proof (cases "is_orphan ?g1 c")
    case True
    with orph have "filter (\<lambda>x. x \<noteq> i) ?ps = []" by simp
    with True s2' show ?thesis by auto
  next
    case False
    have "c \<in> set cs" if f: "filter (\<lambda>x. x \<noteq> i) ?ps = []"
    proof (rule ccontr)
      assume "c \<notin> set cs"
      then have "count_list cs c = 0" by (simp add: count_list_0_iff)
      with cnt filter_neq_Nil_count [OF f] have "length ?ps = Suc 0" by simp
      with mem have "?ps = [i]" by (cases ?ps) auto
      with orph False show False by simp
    qed
    with False s2' show ?thesis by auto
  qed
  from res st known dist sets show ?case by blast
qed

lemma unlink_parents_spec:
  assumes "\<forall>p\<in>set ps. count_list (node_children g p) i = count_list ps p"
  shows "\<exists>g'. unlink_parents i ps g = Step g'
      \<and> stem_id g' = stem_id g
      \<and> (\<forall>a. known_ids g' a =
            (if a \<in> set ps
             then map_option (\<lambda>n. n\<lparr>children := filter (\<lambda>x. x \<noteq> i) (children n)\<rparr>) (known_ids g a)
             else known_ids g a))"
  using assms
proof (induction ps arbitrary: g)
  case Nil
  then show ?case by simp
next
  case (Cons p ps)
  let ?cs = "node_children g p"
  let ?g1 = "update_node g p (\<lambda>n. n\<lparr>children := remove1 i (children n)\<rparr>)"
  let ?F = "\<lambda>n::('a, 'b) node. n\<lparr>children := filter (\<lambda>x. x \<noteq> i) (children n)\<rparr>"
  from Cons.prems have cnt: "count_list ?cs i = Suc (count_list ps p)" by simp
  then have mem: "i \<in> set ?cs" using count_list_pos_iff [of ?cs i] by simp
  then have exp: "exists g p" by (intro node_children_exists) auto
  from remove_child_ok [OF mem] have rc: "remove_child g p i = Step ?g1" .
  have nc1: "\<And>a. node_children ?g1 a = (if a = p then remove1 i ?cs else node_children g a)"
    by (rule node_children_remove1)
  have H1: "\<forall>x\<in>set ps. count_list (node_children ?g1 x) i = count_list ps x"
  proof
    fix x assume x: "x \<in> set ps"
    show "count_list (node_children ?g1 x) i = count_list ps x"
    proof (cases "x = p")
      case True
      with cnt count_list_remove1_same [OF mem] show ?thesis by (simp add: nc1)
    next
      case False
      with x Cons.prems show ?thesis by (simp add: nc1)
    qed
  qed
  from Cons.IH [OF H1] obtain g' where
    run: "unlink_parents i ps ?g1 = Step g'"
    and st: "stem_id g' = stem_id g"
    and ks: "\<forall>a. known_ids g' a = (if a \<in> set ps then map_option ?F (known_ids ?g1 a)
                else known_ids ?g1 a)"
    by auto
  have res: "unlink_parents i (p # ps) g = Step g'"
    using rc run exp by simp
  have known: "\<forall>a. known_ids g' a =
      (if a \<in> set (p # ps) then map_option ?F (known_ids g a) else known_ids g a)"
  proof
    fix a
    show "known_ids g' a =
      (if a \<in> set (p # ps) then map_option ?F (known_ids g a) else known_ids g a)"
    proof (cases "a = p")
      case False
      with ks show ?thesis by simp
    next
      case True
      show ?thesis
      proof (cases "p \<in> set ps")
        case True
        with ks \<open>a = p\<close> show ?thesis
          by (cases "known_ids g p") (simp_all add: filter_remove1_same)
      next
        case False
        then have "count_list ps p = 0" by (simp add: count_list_0_iff)
        with cnt have "remove1 i ?cs = filter (\<lambda>x. x \<noteq> i) ?cs"
          by (simp add: remove1_count_one)
        with ks False \<open>a = p\<close> show ?thesis
          by (cases "known_ids g p") (simp_all add: node_children_def)
      qed
    qed
  qed
  from res st known show ?case by blast
qed

lemma node_lists_restrict:
  assumes "known_ids g' a = map_option (restrict_node P) (known_ids g a)"
  shows "node_parents g' a = filter P (node_parents g a)"
    and "node_children g' a = filter P (node_children g a)"
    and "exists g' a = exists g a"
  using assms
  by (cases "known_ids g a";
      simp add: node_parents_def node_children_def exists_def restrict_node_def)+

lemma well_linkedD:
  assumes "well_linked g L"
  shows "finite L" and "stem_id g \<in> L" and "node_parents g (stem_id g) = []"
    and "\<And>a. a \<in> L \<Longrightarrow> exists g a"
    and "\<And>a. a \<in> L \<Longrightarrow> a \<notin> set (node_parents g a)"
    and "\<And>a b. a \<in> L \<Longrightarrow> b \<in> set (node_parents g a) \<Longrightarrow> b \<in> L"
    and "\<And>a b. a \<in> L \<Longrightarrow> b \<in> set (node_children g a) \<Longrightarrow> b \<in> L"
    and "\<And>a b. a \<in> L \<Longrightarrow> b \<in> L \<Longrightarrow>
           count_list (node_parents g a) b = count_list (node_children g b) a"
  using assms unfolding well_linked_def by blast+

lemma well_linked_child_iff:
  assumes "well_linked g L" and "a \<in> L" and "b \<in> L"
  shows "b \<in> set (node_parents g a) \<longleftrightarrow> a \<in> set (node_children g b)"
  using well_linkedD(8) [OF assms] count_list_0_iff [of "node_parents g a" b]
    count_list_0_iff [of "node_children g b" a]
  by simp

lemma remove_my_trace_spec:
  assumes wl: "well_linked g L" and i: "i \<in> L"
  shows "\<exists>os g1. remove_my_trace g i = Step (os, g1) \<and> unlinked g g1 L i \<and> distinct os
      \<and> set os = {c \<in> set (node_children g i). filter (\<lambda>x. x \<noteq> i) (node_parents g c) = []}"
proof -
  note D = well_linkedD [OF wl]
  let ?cs = "node_children g i"
  let ?ps = "node_parents g i"
  let ?Fp = "\<lambda>n::('a, 'b) node. n\<lparr>parents := filter (\<lambda>x. x \<noteq> i) (parents n)\<rparr>"
  let ?Fc = "\<lambda>n::('a, 'b) node. n\<lparr>children := filter (\<lambda>x. x \<noteq> i) (children n)\<rparr>"
  from D(4) [OF i] obtain n where n: "known_ids g i = Some n" by (auto simp: exists_def)
  then have cn: "children n = ?cs" and pn: "parents n = ?ps"
    by (simp_all add: node_children_def node_parents_def)
  have csL: "\<And>c. c \<in> set ?cs \<Longrightarrow> c \<in> L" using D(7) [OF i] .
  have psL: "\<And>p. p \<in> set ?ps \<Longrightarrow> p \<in> L" using D(6) [OF i] .
  have i_ps: "i \<notin> set ?ps" using D(5) [OF i] .
  then have i_cs: "i \<notin> set ?cs" using well_linked_child_iff [OF wl i i] by simp
  have H1: "\<forall>c\<in>set ?cs. count_list (node_parents g c) i = count_list ?cs c"
    using D(8) csL i by simp
  have H2: "\<forall>c\<in>set ?cs. \<forall>p\<in>set (node_parents g c). exists g p"
    using csL D(6) D(4) by blast
  from unlink_children_spec [OF H1 H2, of "[]"] obtain os g1 where
    l1: "unlink_children i ?cs [] g = Step (os, g1)"
    and st1: "stem_id g1 = stem_id g"
    and k1: "\<forall>a. known_ids g1 a = (if a \<in> set ?cs then map_option ?Fp (known_ids g a)
                else known_ids g a)"
    and dist: "distinct os"
    and sos: "set os = {c \<in> set ?cs. filter (\<lambda>x. x \<noteq> i) (node_parents g c) = []}"
    by auto
  from k1 i_cs n have n1: "known_ids g1 i = Some n" by simp
  have ch1: "\<And>a. node_children g1 a = node_children g a"
  proof -
    fix a
    show "node_children g1 a = node_children g a"
      using k1 [rule_format, of a]
      by (cases "known_ids g a") (simp_all add: node_children_def split: if_splits)
  qed
  have H3: "\<forall>p\<in>set ?ps. count_list (node_children g1 p) i = count_list ?ps p"
    using D(8) [OF i] psL by (simp add: ch1)
  from unlink_parents_spec [OF H3] obtain g2 where
    l2: "unlink_parents i ?ps g1 = Step g2"
    and st2: "stem_id g2 = stem_id g1"
    and k2: "\<forall>a. known_ids g2 a = (if a \<in> set ?ps then map_option ?Fc (known_ids g1 a)
                else known_ids g1 a)"
    by auto
  have run: "remove_my_trace g i = Step (os, g2)"
    using n l1 n1 l2 by (simp add: remove_my_trace_def cn pn)
  have known: "known_ids g2 a =
      (if a \<in> L \<and> a \<noteq> i then map_option (restrict_node (\<lambda>x. x \<noteq> i)) (known_ids g a)
       else known_ids g a)" for a
  proof -
    note k1a = k1 [rule_format, of a] and k2a = k2 [rule_format, of a]
    show ?thesis
    proof (cases "a \<in> L \<and> a \<noteq> i")
      case False
      with csL [of a] psL [of a] i_cs i_ps have "a \<notin> set ?cs" "a \<notin> set ?ps"
        by blast+
      with k1a k2a have "known_ids g2 a = known_ids g a" by simp
      then show ?thesis unfolding if_not_P [OF False] .
    next
      case True
      then have aL: "a \<in> L" and ai: "a \<noteq> i" by simp_all
      from D(4) [OF aL] obtain m where m: "known_ids g a = Some m" by (auto simp: exists_def)
      then have pm: "parents m = node_parents g a" and cm: "children m = node_children g a"
        by (simp_all add: node_parents_def node_children_def)
      have P: "filter (\<lambda>x. x \<noteq> i) (parents m) = parents m" if "a \<notin> set ?cs"
        using that well_linked_child_iff [OF wl aL i] by (simp add: pm filter_neq_id)
      have C: "filter (\<lambda>x. x \<noteq> i) (children m) = children m" if "a \<notin> set ?ps"
        using that well_linked_child_iff [OF wl i aL] by (simp add: cm filter_neq_id)
      have goal: "known_ids g2 a = Some (restrict_node (\<lambda>x. x \<noteq> i) m)"
      proof (cases "a \<in> set ?cs")
        case True
        note inc = this
        show ?thesis
        proof (cases "a \<in> set ?ps")
          case True
          with inc k1a k2a m show ?thesis by (simp add: restrict_node_def)
        next
          case False
          with inc k1a k2a m C [OF False] show ?thesis by (simp add: restrict_node_def)
        qed
      next
        case False
        note ninc = this
        show ?thesis
        proof (cases "a \<in> set ?ps")
          case True
          with ninc k1a k2a m P [OF ninc] show ?thesis by (simp add: restrict_node_def)
        next
          case False
          with ninc k1a k2a m P [OF ninc] C [OF False] show ?thesis
            by (simp add: restrict_node_def)
        qed
      qed
      with m show ?thesis unfolding if_P [OF True] by simp
    qed
  qed
  from st1 st2 known have "unlinked g g2 L i" by (simp add: unlinked_def)
  with run dist sos show ?thesis by blast
qed

lemma count_list_filter_neq:
  "b \<noteq> i \<Longrightarrow> count_list (filter (\<lambda>x. x \<noteq> i) xs) b = count_list xs b"
  by (induction xs) auto

lemma well_linked_unlinked:
  assumes wl: "well_linked g L" and i: "i \<in> L" and ns: "i \<noteq> stem_id g"
    and un: "unlinked g g1 L i"
  shows "well_linked g1 (L - {i})"
proof -
  note D = well_linkedD [OF wl]
  from un have st: "stem_id g1 = stem_id g" by (simp add: unlinked_def)
  have lists: "node_parents g1 a = filter (\<lambda>x. x \<noteq> i) (node_parents g a)"
    "node_children g1 a = filter (\<lambda>x. x \<noteq> i) (node_children g a)"
    "exists g1 a = exists g a" if "a \<in> L - {i}" for a
  proof -
    from un that have "known_ids g1 a = map_option (restrict_node (\<lambda>x. x \<noteq> i)) (known_ids g a)"
      by (simp add: unlinked_def)
    from node_lists_restrict [OF this]
    show "node_parents g1 a = filter (\<lambda>x. x \<noteq> i) (node_parents g a)"
      "node_children g1 a = filter (\<lambda>x. x \<noteq> i) (node_children g a)"
      "exists g1 a = exists g a" by simp_all
  qed
  show ?thesis
    unfolding well_linked_def
  proof (intro conjI ballI)
    show "finite (L - {i})" using D(1) by simp
    show "stem_id g1 \<in> L - {i}" using D(2) ns st by simp
    then show "node_parents g1 (stem_id g1) = []" using lists(1) D(3) st by simp
  next
    fix a assume a: "a \<in> L - {i}"
    then have aL: "a \<in> L" by simp
    show "exists g1 a" using lists(3) [OF a] D(4) [OF aL] by simp
    show "a \<notin> set (node_parents g1 a)" using lists(1) [OF a] D(5) [OF aL] by simp
    show "set (node_parents g1 a) \<subseteq> L - {i}" using lists(1) [OF a] D(6) [OF aL] by auto
    show "set (node_children g1 a) \<subseteq> L - {i}" using lists(2) [OF a] D(7) [OF aL] by auto
  next
    fix a b assume a: "a \<in> L - {i}" and b: "b \<in> L - {i}"
    then show "count_list (node_parents g1 a) b = count_list (node_children g1 b) a"
      using lists(1) [OF a] lists(2) [OF b] D(8) [of a b]
      by (simp add: count_list_filter_neq)
  qed
qed

subsection \<open>Composition of removals\<close>

lemma cascadedD:
  assumes "cascaded g g' L X"
  shows "stem_id g' = stem_id g"
    and "\<And>a. a \<notin> L \<Longrightarrow> known_ids g' a = known_ids g a"
    and "\<And>a. a \<in> L \<Longrightarrow> exists g' a \<Longrightarrow>
           known_ids g' a = map_option (restrict_node (exists g')) (known_ids g a)"
    and "\<And>a. a \<in> X \<Longrightarrow> \<not> exists g' a"
    and "\<And>a. a \<in> L \<Longrightarrow> \<not> exists g' a \<Longrightarrow>
           a \<in> X \<or> (node_parents g a \<noteq> [] \<and> (\<forall>p\<in>set (node_parents g a). \<not> exists g' p))"
    and "\<And>a. a \<in> L \<Longrightarrow> exists g' a \<Longrightarrow> node_parents g' a = [] \<Longrightarrow> node_parents g a = []"
  using assms unfolding cascaded_def by blast+

lemma cascaded_exists:
  assumes c: "cascaded g g' L X" and e: "exists g' a"
  shows "exists g a"
proof (cases "a \<in> L")
  case True
  from node_lists_restrict(3) [OF cascadedD(3) [OF c True e]] e show ?thesis by simp
next
  case False
  from cascadedD(2) [OF c False] e show ?thesis by (simp add: exists_def)
qed

lemma cascaded_lists:
  assumes c: "cascaded g g' L X" and a: "a \<in> L" and e: "exists g' a"
  shows "node_parents g' a = filter (exists g') (node_parents g a)"
    and "node_children g' a = filter (exists g') (node_children g a)"
  using node_lists_restrict [OF cascadedD(3) [OF c a e]] by simp_all

lemma restrict_node_all: 
  "\<forall>x\<in>set (parents n) \<union> set (children n). P x \<Longrightarrow> restrict_node P n = n"
  by (simp add: restrict_node_def)

lemma restrict_node_twice:
  "restrict_node P (restrict_node Q n) = restrict_node (\<lambda>x. Q x \<and> P x) n"
  by (simp add: restrict_node_def)

lemma restrict_node_cong:
  "(\<And>x. x \<in> set (parents n) \<union> set (children n) \<Longrightarrow> P x = Q x) \<Longrightarrow>
     restrict_node P n = restrict_node Q n"
proof -
  assume h: "\<And>x. x \<in> set (parents n) \<union> set (children n) \<Longrightarrow> P x = Q x"
  have "filter P (parents n) = filter Q (parents n)"
    by (rule filter_cong) (simp_all add: h)
  moreover have "filter P (children n) = filter Q (children n)"
    by (rule filter_cong) (simp_all add: h)
  ultimately show ?thesis by (simp add: restrict_node_def)
qed

lemma cascaded_refl:
  assumes wl: "well_linked g L"
  shows "cascaded g g L {}"
proof -
  note D = well_linkedD [OF wl]
  have "known_ids g a = map_option (restrict_node (exists g)) (known_ids g a)" if a: "a \<in> L" for a
  proof -
    from D(4) [OF a] obtain m where m: "known_ids g a = Some m" by (auto simp: exists_def)
    then have "parents m = node_parents g a" "children m = node_children g a"
      by (simp_all add: node_parents_def node_children_def)
    with D(6) [OF a] D(7) [OF a] D(4)
    have "\<forall>x\<in>set (parents m) \<union> set (children m). exists g x" by auto
    from restrict_node_all [OF this] m show ?thesis by simp
  qed
  with D(4) show ?thesis unfolding cascaded_def by auto
qed

lemma well_linked_cascaded:
  assumes wl: "well_linked g L" and c: "cascaded g g' L X" and sx: "stem_id g \<notin> X"
  shows "well_linked g' {a \<in> L. exists g' a}"
proof -
  note D = well_linkedD [OF wl]
  note C = cascadedD [OF c]
  have stem: "exists g' (stem_id g)"
    using C(5) [OF D(2)] D(3) sx by auto
  show ?thesis unfolding well_linked_def
  proof (intro conjI ballI)
    show "finite {a \<in> L. exists g' a}" using D(1) by simp
    show s: "stem_id g' \<in> {a \<in> L. exists g' a}" using D(2) stem C(1) by simp
    show "node_parents g' (stem_id g') = []"
      using cascaded_lists(1) [OF c D(2) stem] D(3) C(1) by simp
  next
    fix a assume "a \<in> {a \<in> L. exists g' a}"
    then have a: "a \<in> L" and e: "exists g' a" by simp_all
    note l = cascaded_lists [OF c a e]
    show "exists g' a" by (rule e)
    show "a \<notin> set (node_parents g' a)" using l(1) D(5) [OF a] by simp
    show "set (node_parents g' a) \<subseteq> {a \<in> L. exists g' a}" using l(1) D(6) [OF a] by auto
    show "set (node_children g' a) \<subseteq> {a \<in> L. exists g' a}" using l(2) D(7) [OF a] by auto
  next
    fix a b assume "a \<in> {a \<in> L. exists g' a}" "b \<in> {a \<in> L. exists g' a}"
    then have a: "a \<in> L" "exists g' a" and b: "b \<in> L" "exists g' b" by simp_all
    show "count_list (node_parents g' a) b = count_list (node_children g' b) a"
      using cascaded_lists(1) [OF c a] cascaded_lists(2) [OF c b] D(8) [OF a(1) b(1)] a(2) b(2)
      by (simp add: count_list_filter_keep)
  qed
qed

lemma cascaded_seq:
  assumes c1: "cascaded g g1 L X1" and c2: "cascaded g1 g2 {a \<in> L. exists g1 a} X2"
  shows "cascaded g g2 L (X1 \<union> X2)"
proof -
  note C1 = cascadedD [OF c1] and C2 = cascadedD [OF c2]
  have mono: "\<And>a. exists g2 a \<Longrightarrow> exists g1 a" using cascaded_exists [OF c2] .
  show ?thesis unfolding cascaded_def
  proof (intro conjI allI ballI impI)
    show "stem_id g2 = stem_id g" using C1(1) C2(1) by simp
  next
    fix a assume "a \<notin> L"
    then show "known_ids g2 a = known_ids g a" using C1(2) [of a] C2(2) [of a] by simp
  next
    fix a assume a: "a \<in> L" and e2: "exists g2 a"
    from mono [OF e2] have e1: "exists g1 a" .
    with a have a1: "a \<in> {a \<in> L. exists g1 a}" by simp
    from cascaded_exists [OF c1 e1] obtain m where m: "known_ids g a = Some m"
      by (auto simp: exists_def)
    have "restrict_node (\<lambda>x. exists g1 x \<and> exists g2 x) m = restrict_node (exists g2) m"
      by (rule restrict_node_cong) (use mono in blast)
    with C2(3) [OF a1 e2] C1(3) [OF a e1] m
    show "known_ids g2 a = map_option (restrict_node (exists g2)) (known_ids g a)"
      by (simp add: restrict_node_twice)
  next
    fix a assume "a \<in> X1 \<union> X2"
    then show "\<not> exists g2 a" using C1(4) [of a] C2(4) [of a] mono [of a] by blast
  next
    fix a assume a: "a \<in> L" and n2: "\<not> exists g2 a"
    show "a \<in> X1 \<union> X2 \<or>
          node_parents g a \<noteq> [] \<and> (\<forall>p\<in>set (node_parents g a). \<not> exists g2 p)"
    proof (cases "exists g1 a")
      case False
      from C1(5) [OF a False] mono show ?thesis by blast
    next
      case True
      with a have a1: "a \<in> {a \<in> L. exists g1 a}" by simp
      note l = cascaded_lists(1) [OF c1 a True]
      from C2(5) [OF a1 n2] show ?thesis
      proof
        assume "a \<in> X2"
        then show ?thesis by simp
      next
        assume h: "node_parents g1 a \<noteq> [] \<and> (\<forall>p\<in>set (node_parents g1 a). \<not> exists g2 p)"
        with l have "node_parents g a \<noteq> []" by auto
        moreover have "\<not> exists g2 p" if "p \<in> set (node_parents g a)" for p
        proof (cases "exists g1 p")
          case True
          with that l have "p \<in> set (node_parents g1 a)" by simp
          with h show ?thesis by blast
        next
          case False
          with mono show ?thesis by blast
        qed
        ultimately show ?thesis by blast
      qed
    qed
  next
    fix a assume a: "a \<in> L" and e2: "exists g2 a" and p2: "node_parents g2 a = []"
    from mono [OF e2] have e1: "exists g1 a" .
    with a have a1: "a \<in> {a \<in> L. exists g1 a}" by simp
    from C2(6) [OF a1 e2 p2] C1(6) [OF a e1] show "node_parents g a = []" by simp
  qed
qed

lemma known_ids_erase [simp]: "known_ids (erase g i) = (known_ids g)(i := None)"
  by (simp add: erase_def)

lemma node_parents_erase:
  "node_parents (erase g i) a = (if a = i then [] else node_parents g a)"
  by (simp add: node_parents_def)

lemma filter_neq_Nil_only: "filter (\<lambda>x. x \<noteq> i) xs = [] \<Longrightarrow> p \<in> set xs \<Longrightarrow> p = i"
  by (induction xs) (auto split: if_splits)

lemma cascaded_trace_erase:
  assumes wl: "well_linked g L" and i: "i \<in> L" and un: "unlinked g g1 L i"
    and sos: "set os = {c \<in> set (node_children g i). filter (\<lambda>x. x \<noteq> i) (node_parents g c) = []}"
    and c: "cascaded g1 g2 (L - {i}) (set os)"
  shows "cascaded g (erase g2 i) L {i}"
proof -
  note D = well_linkedD [OF wl]
  note C = cascadedD [OF c]
  let ?g' = "erase g2 i"
  have ex': "\<And>a. exists ?g' a \<longleftrightarrow> a \<noteq> i \<and> exists g2 a" by simp
  have un1: "known_ids g1 a = map_option (restrict_node (\<lambda>x. x \<noteq> i)) (known_ids g a)"
    if "a \<in> L" "a \<noteq> i" for a
    using un that by (simp add: unlinked_def)
  have un2: "known_ids g1 a = known_ids g a" if "a \<notin> L \<or> a = i" for a
    using un that by (auto simp: unlinked_def)
  have filt: "node_parents g1 a = filter (\<lambda>x. x \<noteq> i) (node_parents g a)"
    if "a \<in> L" "a \<noteq> i" for a
    using node_lists_restrict(1) [OF un1 [OF that]] .
  show ?thesis unfolding cascaded_def
  proof (intro conjI allI ballI impI)
    show "stem_id ?g' = stem_id g" using C(1) un by (simp add: unlinked_def)
  next
    fix a assume a: "a \<notin> L"
    with i have "a \<noteq> i" by auto
    with a C(2) [of a] un2 [of a] show "known_ids ?g' a = known_ids g a" by simp
  next
    fix a assume a: "a \<in> L" and e: "exists ?g' a"
    then have ai: "a \<noteq> i" and e2: "exists g2 a" by simp_all
    from a ai have a1: "a \<in> L - {i}" by simp
    have "(\<lambda>x. x \<noteq> i \<and> exists g2 x) = exists ?g'" by (rule ext) simp
    with C(3) [OF a1 e2] un1 [OF a ai] ai
    show "known_ids ?g' a = map_option (restrict_node (exists ?g')) (known_ids g a)"
      by (cases "known_ids g a") (simp_all add: restrict_node_twice)
  next
    fix a assume "a \<in> {i}"
    then show "\<not> exists ?g' a" by simp
  next
    fix a assume a: "a \<in> L" and ne: "\<not> exists ?g' a"
    show "a \<in> {i} \<or> node_parents g a \<noteq> [] \<and> (\<forall>p\<in>set (node_parents g a). \<not> exists ?g' p)"
    proof (cases "a = i")
      case True
      then show ?thesis by simp
    next
      case False
      with a ne have a1: "a \<in> L - {i}" and n2: "\<not> exists g2 a" by simp_all
      from C(5) [OF a1 n2] show ?thesis
      proof
        assume "a \<in> set os"
        with sos have ch: "a \<in> set (node_children g i)"
          and f: "filter (\<lambda>x. x \<noteq> i) (node_parents g a) = []" by simp_all
        from ch well_linked_child_iff [OF wl a i] have "i \<in> set (node_parents g a)" by simp
        then have "node_parents g a \<noteq> []" by auto
        moreover have "\<forall>p\<in>set (node_parents g a). \<not> exists ?g' p"
          using filter_neq_Nil_only [OF f] by auto
        ultimately show ?thesis by blast
      next
        assume h: "node_parents g1 a \<noteq> [] \<and> (\<forall>p\<in>set (node_parents g1 a). \<not> exists g2 p)"
        with filt [OF a False] have "node_parents g a \<noteq> []" by auto
        moreover have "\<forall>p\<in>set (node_parents g a). \<not> exists ?g' p"
          using h filt [OF a False] by auto
        ultimately show ?thesis by blast
      qed
    qed
  next
    fix a assume a: "a \<in> L" and e: "exists ?g' a" and p: "node_parents ?g' a = []"
    then have ai: "a \<noteq> i" and e2: "exists g2 a" by simp_all
    from a ai have a1: "a \<in> L - {i}" by simp
    from p ai have "node_parents g2 a = []" by (simp add: node_parents_erase)
    from C(6) [OF a1 e2 this] filt [OF a ai]
    have f: "filter (\<lambda>x. x \<noteq> i) (node_parents g a) = []" by simp
    show "node_parents g a = []"
    proof (rule ccontr)
      assume ne: "node_parents g a \<noteq> []"
      then obtain p where "p \<in> set (node_parents g a)" by (cases "node_parents g a") auto
      with filter_neq_Nil_only [OF f] have "i \<in> set (node_parents g a)" by auto
      with well_linked_child_iff [OF wl a i] have "a \<in> set (node_children g i)" by simp
      with f sos have "a \<in> set os" by simp
      from C(4) [OF this] e2 show False by simp
    qed
  qed
qed

subsection \<open>The cascade\<close>

lemma remove_orphans_cascade:
  fixes g :: "('i, 'v) genealogy"
  assumes step: "\<And>(g :: ('i, 'v) genealogy) L i.
      well_linked g L \<Longrightarrow> card L \<le> k \<Longrightarrow> i \<in> L \<Longrightarrow> i \<noteq> stem_id g \<Longrightarrow>
        \<exists>g'. remove_fuel k g i = Some (Returned g') \<and> cascaded g g' L {i}"
  shows "well_linked g L \<Longrightarrow> card L \<le> k \<Longrightarrow> set os \<subseteq> L \<Longrightarrow> distinct os \<Longrightarrow>
     stem_id g \<notin> set os \<Longrightarrow> \<forall>c\<in>set os. node_parents g c = [] \<Longrightarrow>
       \<exists>g'. remove_orphans k g os = Some (Returned g') \<and> cascaded g g' L (set os)"
proof (induction os arbitrary: g L)
  case Nil
  then show ?case by (simp add: cascaded_refl)
next
  case (Cons orphan rest)
  note wl = Cons.prems(1)
  from Cons.prems have oL: "orphan \<in> L" and ns: "orphan \<noteq> stem_id g" by auto
  from step [OF wl Cons.prems(2) oL ns] obtain g1 where
    r1: "remove_fuel k g orphan = Some (Returned g1)" and c1: "cascaded g g1 L {orphan}"
    by blast
  let ?L1 = "{a \<in> L. exists g1 a}"
  have "stem_id g \<notin> {orphan}" using ns by simp
  from well_linked_cascaded [OF wl c1 this] have wl1: "well_linked g1 ?L1" .
  have "card ?L1 \<le> card L" using well_linkedD(1) [OF wl] by (intro card_mono) auto
  with Cons.prems(2) have card1: "card ?L1 \<le> k" by simp
  have in1: "c \<in> ?L1" if c: "c \<in> set rest" for c
  proof -
    from c Cons.prems have cL: "c \<in> L" and ne: "c \<noteq> orphan" and np: "node_parents g c = []"
      by auto
    from cascadedD(5) [OF c1 cL] ne np have "exists g1 c" by auto
    with cL show ?thesis by simp
  qed
  then have sub1: "set rest \<subseteq> ?L1" by blast
  from Cons.prems have d1: "distinct rest" by simp
  from Cons.prems cascadedD(1) [OF c1] have st1: "stem_id g1 \<notin> set rest" by simp
  have np1: "\<forall>c\<in>set rest. node_parents g1 c = []"
  proof
    fix c assume c: "c \<in> set rest"
    from in1 [OF c] have "c \<in> L" "exists g1 c" by simp_all
    from cascaded_lists(1) [OF c1 this] c Cons.prems(6) show "node_parents g1 c = []" by simp
  qed
  from Cons.IH [OF wl1 card1 sub1 d1 st1 np1] obtain g2 where
    r2: "remove_orphans k g1 rest = Some (Returned g2)" and c2: "cascaded g1 g2 ?L1 (set rest)"
    by blast
  from cascaded_seq [OF c1 c2] have "cascaded g g2 L (set (orphan # rest))" by simp
  moreover from r1 r2 have "remove_orphans k g (orphan # rest) = Some (Returned g2)" by simp
  ultimately show ?case by blast
qed

lemma remove_fuel_cascade:
  fixes g :: "('i, 'v) genealogy"
  shows "well_linked g L \<Longrightarrow> card L \<le> k \<Longrightarrow> i \<in> L \<Longrightarrow> i \<noteq> stem_id g \<Longrightarrow>
     \<exists>g'. remove_fuel k g i = Some (Returned g') \<and> cascaded g g' L {i}"
proof (induction k arbitrary: g L i)
  case 0
  from well_linkedD(1) [OF 0(1)] 0(3) have "0 < card L" by (auto simp: card_gt_0_iff)
  with 0(2) show ?case by simp
next
  case (Suc k)
  note wl = Suc.prems(1) and i = Suc.prems(3) and ns = Suc.prems(4)
  note D = well_linkedD [OF wl]
  from D(4) [OF i] have ex: "exists g i" .
  from remove_my_trace_spec [OF wl i] obtain os g1 where
    tr: "remove_my_trace g i = Step (os, g1)" and un: "unlinked g g1 L i" and dist: "distinct os"
    and sos: "set os = {c \<in> set (node_children g i). filter (\<lambda>x. x \<noteq> i) (node_parents g c) = []}"
    by blast
  from well_linked_unlinked [OF wl i ns un] have wl1: "well_linked g1 (L - {i})" .
  from un have st1: "stem_id g1 = stem_id g" by (simp add: unlinked_def)
  have "card (L - {i}) < card L" using D(1) i by (intro card_Diff1_less)
  with Suc.prems(2) have card1: "card (L - {i}) \<le> k" by simp
  have i_cs: "i \<notin> set (node_children g i)"
    using D(5) [OF i] well_linked_child_iff [OF wl i i] by simp
  have sub1: "set os \<subseteq> L - {i}" using sos D(7) [OF i] i_cs by auto
  have stem1: "stem_id g1 \<notin> set os"
  proof
    assume "stem_id g1 \<in> set os"
    with sos st1 have "stem_id g \<in> set (node_children g i)" by simp
    with well_linked_child_iff [OF wl D(2) i] D(3) show False by simp
  qed
  have np1: "\<forall>c\<in>set os. node_parents g1 c = []"
  proof
    fix c assume c: "c \<in> set os"
    with sub1 have "c \<in> L" "c \<noteq> i" by auto
    with un have "known_ids g1 c = map_option (restrict_node (\<lambda>x. x \<noteq> i)) (known_ids g c)"
      by (simp add: unlinked_def)
    from node_lists_restrict(1) [OF this] c sos show "node_parents g1 c = []" by simp
  qed
  have step: "\<And>(g :: ('i, 'v) genealogy) L i.
      well_linked g L \<Longrightarrow> card L \<le> k \<Longrightarrow> i \<in> L \<Longrightarrow> i \<noteq> stem_id g \<Longrightarrow>
        \<exists>g'. remove_fuel k g i = Some (Returned g') \<and> cascaded g g' L {i}"
    by (rule Suc.IH)
  from remove_orphans_cascade [OF step wl1 card1 sub1 dist stem1 np1] obtain g2 where
    r2: "remove_orphans k g1 os = Some (Returned g2)" and c2: "cascaded g1 g2 (L - {i}) (set os)"
    by blast
  have "remove_fuel (Suc k) g i = Some (Returned (erase g2 i))"
    by (subst remove_fuel.simps) (simp add: ns ex tr r2)
  moreover from cascaded_trace_erase [OF wl i un sos c2] have "cascaded g (erase g2 i) L {i}" .
  ultimately show ?case by blast
qed

text \<open>A larger bound on the nested calls does not change a result.\<close>

lemma remove_orphans_more_fuel:
  fixes g :: "('i, 'v) genealogy"
  assumes step: "\<And>(g :: ('i, 'v) genealogy) i r.
      remove_fuel k g i = Some r \<Longrightarrow> remove_fuel (Suc k) g i = Some r"
  shows "remove_orphans k g os = Some r \<Longrightarrow> remove_orphans (Suc k) g os = Some r"
proof (induction os arbitrary: g)
  case Nil
  then show ?case by simp
next
  case (Cons orphan rest)
  from Cons.prems obtain r1 where r1: "remove_fuel k g orphan = Some r1"
    by (cases "remove_fuel k g orphan") simp_all
  note s1 = step [OF r1]
  show ?case
  proof (cases r1)
    case (Returned g1)
    with r1 Cons.prems have "remove_orphans k g1 rest = Some r" by simp
    from Cons.IH [OF this] s1 Returned show ?thesis by simp
  next
    case (Threw e g1)
    with r1 s1 Cons.prems show ?thesis by auto
  next
    case (Failed f)
    with r1 s1 Cons.prems show ?thesis by auto
  qed
qed

lemma remove_fuel_Suc:
  fixes g :: "('i, 'v) genealogy"
  shows "remove_fuel k g i = Some r \<Longrightarrow> remove_fuel (Suc k) g i = Some r"
proof (induction k arbitrary: g i r)
  case 0
  then show ?case
    by (subst remove_fuel.simps, subst (asm) remove_fuel.simps) (auto split: if_splits)
next
  case (Suc k)
  have step: "\<And>(g :: ('i, 'v) genealogy) i r.
      remove_fuel k g i = Some r \<Longrightarrow> remove_fuel (Suc k) g i = Some r"
    by (rule Suc.IH)
  show ?case
  proof (cases "i = stem_id g \<or> \<not> exists g i")
    case True
    with Suc.prems show ?thesis
      by (subst remove_fuel.simps, subst (asm) remove_fuel.simps) (auto split: if_splits)
  next
    case False
    show ?thesis
    proof (cases "remove_my_trace g i")
      case (Fault f)
      with False Suc.prems show ?thesis
        by (subst remove_fuel.simps, subst (asm) remove_fuel.simps) simp
    next
      case (Step x)
      obtain os g1 where x: "x = (os, g1)" by (cases x)
      from False Step x Suc.prems
      have unf: "(case remove_orphans k g1 os of
                    Some (Returned g2) \<Rightarrow> Some (Returned (erase g2 i))
                  | r \<Rightarrow> r) = Some r"
        by (subst (asm) remove_fuel.simps) simp
      then obtain r2 where r2: "remove_orphans k g1 os = Some r2"
        by (cases "remove_orphans k g1 os") simp_all
      from remove_orphans_more_fuel [OF step r2]
      have "remove_orphans (Suc k) g1 os = Some r2" .
      with unf r2 False Step x show ?thesis
        by (subst remove_fuel.simps) simp
    qed
  qed
qed

lemma remove_fuel_more_fuel:
  "remove_fuel k g i = Some r \<Longrightarrow> k \<le> k' \<Longrightarrow> remove_fuel k' g i = Some r"
  by (induction k' arbitrary: k) (auto simp: le_Suc_eq remove_fuel_Suc)

subsection \<open>Removal in a well-formed genealogy\<close>

lemma edge_consistentD:
  "edge_consistent g \<Longrightarrow> count_list (node_parents g a) b = count_list (node_children g b) a"
  by (simp add: edge_consistent_def)

lemma edge_consistent_iff:
  assumes "edge_consistent g"
  shows "b \<in> set (node_parents g a) \<longleftrightarrow> a \<in> set (node_children g b)"
  using edge_consistentD [OF assms, of a b] count_list_0_iff [of "node_parents g a" b]
    count_list_0_iff [of "node_children g b" a]
  by simp

lemma edge_consistent_closed:
  assumes ec: "edge_consistent g"
  shows "b \<in> set (node_parents g a) \<Longrightarrow> exists g b"
    and "b \<in> set (node_children g a) \<Longrightarrow> exists g b"
proof -
  assume "b \<in> set (node_parents g a)"
  with edge_consistent_iff [OF ec, of b a] have "node_children g b \<noteq> []" by auto
  then show "exists g b" by (rule node_children_exists)
next
  assume "b \<in> set (node_children g a)"
  with edge_consistent_iff [OF ec, of a b] have "node_parents g b \<noteq> []" by auto
  then show "exists g b" by (rule node_parents_exists)
qed

lemma edges_registered:
  assumes ec: "edge_consistent g" and e: "(p, c) \<in> edges g"
  shows "exists g p" and "exists g c"
proof -
  from e have m: "p \<in> set (node_parents g c)" by (simp add: edges_def)
  then show "exists g p" by (rule edge_consistent_closed(1) [OF ec])
  from m have "node_parents g c \<noteq> []" by auto
  then show "exists g c" by (rule node_parents_exists)
qed

lemma finite_edges:
  assumes "finite {a. exists g a}" and ec: "edge_consistent g"
  shows "finite (edges g)"
proof (rule finite_subset)
  show "edges g \<subseteq> {a. exists g a} \<times> {a. exists g a}"
    using edges_registered [OF ec] by auto
  show "finite ({a. exists g a} \<times> {a. exists g a})" using assms(1) by simp
qed

lemma descends_from_stem:
  assumes wf: "well_formed g" and e: "exists g a"
  shows "(stem_id g, a) \<in> (edges g)\<^sup>*"
proof -
  from wf have fin: "finite {a. exists g a}" and ec: "edge_consistent g" and ro: "rooted g"
    and ac: "acyclic (edges g)"
    by (simp_all add: well_formed_def)
  have "wf (edges g)" using finite_edges [OF fin ec] ac by (rule finite_acyclic_wf)
  then show ?thesis using e
  proof (induction a rule: wf_induct_rule)
    case (less a)
    show ?case
    proof (cases "a = stem_id g")
      case True
      then show ?thesis by simp
    next
      case False
      with ro less.prems have "node_parents g a \<noteq> []" by (simp add: rooted_def)
      then obtain p where p: "p \<in> set (node_parents g a)" by (cases "node_parents g a") auto
      then have pa: "(p, a) \<in> edges g" by (simp add: edges_def)
      from less.IH [OF pa edge_consistent_closed(1) [OF ec p]] pa show ?thesis by simp
    qed
  qed
qed

lemma stem_parentless:
  assumes wf: "well_formed g"
  shows "node_parents g (stem_id g) = []"
proof (rule ccontr)
  assume "node_parents g (stem_id g) \<noteq> []"
  then obtain p where p: "p \<in> set (node_parents g (stem_id g))"
    by (cases "node_parents g (stem_id g)") auto
  from wf have ec: "edge_consistent g" and ac: "acyclic (edges g)"
    by (simp_all add: well_formed_def)
  from p have "(p, stem_id g) \<in> edges g" by (simp add: edges_def)
  moreover from descends_from_stem [OF wf edge_consistent_closed(1) [OF ec p]]
  have "(stem_id g, p) \<in> (edges g)\<^sup>*" .
  ultimately have "(stem_id g, stem_id g) \<in> (edges g)\<^sup>+" by simp
  with ac show False by (simp add: acyclic_def)
qed

lemma well_formed_linked:
  assumes wf: "well_formed g"
  shows "well_linked g {a. exists g a}"
proof -
  from wf have fin: "finite {a. exists g a}" and st: "exists g (stem_id g)"
    and ec: "edge_consistent g" and ac: "acyclic (edges g)"
    by (simp_all add: well_formed_def)
  have self: "a \<notin> set (node_parents g a)" for a
  proof
    assume "a \<in> set (node_parents g a)"
    then have "(a, a) \<in> (edges g)\<^sup>+" by (simp add: edges_def r_into_trancl')
    with ac show False by (simp add: acyclic_def)
  qed
  show ?thesis unfolding well_linked_def
    using fin st stem_parentless [OF wf] self edge_consistent_closed [OF ec]
      edge_consistentD [OF ec]
    by auto
qed

lemma well_linked_edge_consistent:
  assumes wl: "well_linked g {a. exists g a}"
  shows "edge_consistent g"
  unfolding edge_consistent_def
proof (intro allI)
  fix a b
  note D = well_linkedD [OF wl]
  show "count_list (node_parents g a) b = count_list (node_children g b) a"
  proof (cases "exists g a \<and> exists g b")
    case True
    then show ?thesis using D(8) [of a b] by simp
  next
    case False
    have l: "b \<notin> set (node_parents g a)"
    proof
      assume m: "b \<in> set (node_parents g a)"
      then have "node_parents g a \<noteq> []" by auto
      then have "exists g a" by (rule node_parents_exists)
      with D(6) [of a b] m False show False by simp
    qed
    have r: "a \<notin> set (node_children g b)"
    proof
      assume m: "a \<in> set (node_children g b)"
      then have "node_children g b \<noteq> []" by auto
      then have "exists g b" by (rule node_children_exists)
      with D(7) [of b a] m False show False by simp
    qed
    from l r show ?thesis by (simp add: count_list_0_iff)
  qed
qed

lemma cascaded_well_formed:
  assumes wf: "well_formed g" and c: "cascaded g g' {a. exists g a} X" and sx: "stem_id g \<notin> X"
  shows "well_formed g'"
proof -
  note wl = well_formed_linked [OF wf]
  note C = cascadedD [OF c]
  have sub: "{a. exists g' a} \<subseteq> {a. exists g a}" using cascaded_exists [OF c] by blast
  then have eq: "{a \<in> {a. exists g a}. exists g' a} = {a. exists g' a}" by blast
  from well_linked_cascaded [OF wl c sx] have wl': "well_linked g' {a. exists g' a}"
    by (simp only: eq)
  from wf have fin: "finite {a. exists g a}" and ro: "rooted g" and ac: "acyclic (edges g)"
    by (simp_all add: well_formed_def)
  have "finite {a. exists g' a}" using fin sub by (rule rev_finite_subset)
  moreover have "exists g' (stem_id g')" using well_linkedD(2,4) [OF wl'] by blast
  moreover have "edge_consistent g'" using wl' by (rule well_linked_edge_consistent)
  moreover have "rooted g'" unfolding rooted_def
  proof (intro allI impI)
    fix a assume a: "exists g' a \<and> a \<noteq> stem_id g'"
    with sub have ea: "exists g a" by blast
    show "node_parents g' a \<noteq> []"
    proof
      assume "node_parents g' a = []"
      with C(6) [of a] a ea have "node_parents g a = []" by simp
      with ro a ea C(1) show False by (simp add: rooted_def)
    qed
  qed
  moreover have "acyclic (edges g')"
  proof (rule acyclic_subset [OF ac])
    show "edges g' \<subseteq> edges g"
    proof
      fix x assume x: "x \<in> edges g'"
      obtain p a where pa: "x = (p, a)" by (cases x)
      with x have m: "p \<in> set (node_parents g' a)" by (simp add: edges_def)
      then have "node_parents g' a \<noteq> []" by auto
      then have e': "exists g' a" by (rule node_parents_exists)
      with sub have "a \<in> {a. exists g a}" by blast
      from cascaded_lists(1) [OF c this e'] m pa show "x \<in> edges g" by (simp add: edges_def)
    qed
  qed
  ultimately show ?thesis by (simp add: well_formed_def)
qed

lemma remove_well_formed:
  assumes wf: "well_formed g" and e: "exists g i" and ns: "i \<noteq> stem_id g"
  shows "\<exists>g'. (\<forall>k\<ge>card {a. exists g a}. remove_fuel k g i = Some (Returned g'))
      \<and> cascaded g g' {a. exists g a} {i} \<and> well_formed g'"
proof -
  let ?L = "{a. exists g a}"
  from remove_fuel_cascade [OF well_formed_linked [OF wf], of "card ?L" i] e ns
  obtain g' where r: "remove_fuel (card ?L) g i = Some (Returned g')"
    and c: "cascaded g g' ?L {i}"
    by auto
  have "stem_id g \<notin> {i}" using ns by simp
  from cascaded_well_formed [OF wf c this] have "well_formed g'" .
  with r c remove_fuel_more_fuel [OF r] show ?thesis by blast
qed

lemma remove_fuel_well_formed:
  assumes wf: "well_formed g" and r: "remove_fuel k g i = Some r"
  shows "(i = stem_id g \<and> r = Threw TriedToRemoveStemVirus g)
     \<or> (i \<noteq> stem_id g \<and> \<not> exists g i \<and> r = Threw VirusNotFound g)
     \<or> (i \<noteq> stem_id g \<and> exists g i
          \<and> (\<exists>g'. r = Returned g' \<and> cascaded g g' {a. exists g a} {i} \<and> well_formed g'))"
proof (cases "i = stem_id g \<or> \<not> exists g i")
  case True
  with r show ?thesis by (subst (asm) remove_fuel.simps) (auto split: if_splits)
next
  case False
  then have e: "exists g i" and ns: "i \<noteq> stem_id g" by simp_all
  from remove_well_formed [OF wf e ns] obtain g' where
    all: "\<forall>k\<ge>card {a. exists g a}. remove_fuel k g i = Some (Returned g')"
    and c: "cascaded g g' {a. exists g a} {i}" and wf': "well_formed g'"
    by blast
  let ?K = "max k (card {a. exists g a})"
  from all have "remove_fuel ?K g i = Some (Returned g')" by simp
  moreover from remove_fuel_more_fuel [OF r, of ?K] have "remove_fuel ?K g i = Some r" by simp
  ultimately have "r = Returned g'" by simp
  with e ns c wf' show ?thesis by blast
qed

subsection \<open>Creation and connection in a well-formed genealogy\<close>

lemma count_list_replicate: "count_list (replicate n x) y = (if x = y then n else 0)"
  by (induction n) auto

lemma create_multi_success:
  assumes c: "create_multi ctor g i ps = Returned g'" and ne: "ps \<noteq> []"
  shows "\<not> exists g i" and "\<forall>p\<in>set ps. exists g p" and "stem_id g' = stem_id g"
    and "\<And>a. exists g' a \<longleftrightarrow> a = i \<or> exists g a"
    and "\<And>a. node_parents g' a = (if a = i then ps else node_parents g a)"
    and "\<And>a. node_children g' a = node_children g a @ replicate (count_list ps a) i"
proof -
  from c show ni: "\<not> exists g i" by (auto simp: create_multi_def split: if_splits)
  from c have ea: "exists_all g ps" by (auto simp: create_multi_def split: if_splits)
  then show reg: "\<forall>p\<in>set ps. exists g p" by (simp add: exists_all_iff)
  from c ne ni ea obtain n where n: "make_node ctor i = Some n"
    and g': "g' = fold (\<lambda>parent_id g'. add_parent g' i parent_id) ps (insert_node g i n)"
    by (auto simp: create_multi_def split: option.splits)
  from n have n0: "parents n = []" "children n = []" by (auto simp: make_node_def)
  show "stem_id g' = stem_id g" by (simp add: g')
  show "\<And>a. exists g' a \<longleftrightarrow> a = i \<or> exists g a" by (simp add: g')
  show "\<And>a. node_parents g' a = (if a = i then ps else node_parents g a)"
    by (simp add: g' node_parents_fold_add_parent node_parents_insert_node n0)
  from reg have "\<forall>p\<in>set ps. exists (insert_node g i n) p" by simp
  then show "\<And>a. node_children g' a = node_children g a @ replicate (count_list ps a) i"
    using ni
    by (simp add: g' node_children_fold_add_parent node_children_insert_node n0
        node_lists_unregistered)
qed

lemma create_multi_empty: "create_multi ctor g i [] = Returned g' \<Longrightarrow> g' = g"
  by (auto simp: create_multi_def split: if_splits)

lemma acyclic_add_sink:
  assumes "acyclic r" and "i \<notin> Domain r" and "i \<notin> set ps"
  shows "acyclic (r \<union> {(p, i) |p. p \<in> set ps})"
  using assms(3)
proof (induction ps)
  case Nil
  with assms(1) show ?case by simp
next
  case (Cons q ps)
  let ?r = "r \<union> {(p, i) |p. p \<in> set ps}"
  from Cons have ac: "acyclic ?r" and qi: "q \<noteq> i" and ips: "i \<notin> set ps" by auto
  have dom: "i \<notin> Domain ?r" using assms(2) ips by auto
  have "(i, q) \<notin> ?r\<^sup>*"
  proof
    assume "(i, q) \<in> ?r\<^sup>*"
    then show False
    proof (cases rule: converse_rtranclE)
      case base
      with qi show ?thesis by simp
    next
      case (step z)
      with dom show ?thesis by auto
    qed
  qed
  with ac have "acyclic (insert (q, i) ?r)" by (simp add: acyclic_insert)
  moreover have "insert (q, i) ?r = r \<union> {(p, i) |p. p \<in> set (q # ps)}" by auto
  ultimately show ?case by simp
qed

lemma well_formedD:
  assumes "well_formed g"
  shows "finite {a. exists g a}" and "exists g (stem_id g)" and "edge_consistent g"
    and "rooted g" and "acyclic (edges g)"
  using assms by (simp_all add: well_formed_def)

lemma well_formed_create_multi:
  assumes wf: "well_formed g" and c: "create_multi ctor g i ps = Returned g'"
  shows "well_formed g'"
proof (cases "ps = []")
  case True
  with c create_multi_empty [of ctor g i g'] wf show ?thesis by simp
next
  case False
  note S = create_multi_success [OF c False]
  note W = well_formedD [OF wf]
  have ni_par: "node_parents g i = []" and ni_ch: "node_children g i = []"
    using node_lists_unregistered [OF S(1)] by simp_all
  have no_i: "i \<notin> set (node_parents g a)" for a
    using edge_consistent_closed(1) [OF W(3), of i a] S(1) by blast
  have ips: "i \<notin> set ps" using S(1,2) by blast
  have "{a. exists g' a} = insert i {a. exists g a}" using S(4) by auto
  with W(1) have fin: "finite {a. exists g' a}" by simp
  have st: "exists g' (stem_id g')" using S(3,4) W(2) by simp
  have ec: "edge_consistent g'" unfolding edge_consistent_def
  proof (intro allI)
    fix a b
    have "count_list (node_children g b) i = 0"
      using edge_consistentD [OF W(3), of i b] ni_par by simp
    then show "count_list (node_parents g' a) b = count_list (node_children g' b) a"
      using edge_consistentD [OF W(3), of a b]
      by (cases "a = i") (simp_all add: S(5,6) count_list_replicate)
  qed
  have ro: "rooted g'" unfolding rooted_def
  proof (intro allI impI)
    fix a assume a: "exists g' a \<and> a \<noteq> stem_id g'"
    show "node_parents g' a \<noteq> []"
    proof (cases "a = i")
      case True
      with False show ?thesis by (simp add: S(5))
    next
      case False
      with a S(3,4) W(4) show ?thesis by (simp add: S(5) rooted_def)
    qed
  qed
  have "edges g' = edges g \<union> {(p, i) |p. p \<in> set ps}"
    using ni_par by (auto simp: edges_def S(5) split: if_splits)
  moreover have "i \<notin> Domain (edges g)" using no_i by (auto simp: edges_def)
  ultimately have ac: "acyclic (edges g')" using acyclic_add_sink [OF W(5) _ ips] by simp
  from fin st ec ro ac show ?thesis by (simp add: well_formed_def)
qed

lemma connect_cases:
  assumes "connect g c p = Returned g'"
  shows "g' = g \<or> (g' = add_parent g c p \<and> exists g c \<and> exists g p)"
  using assms by (auto simp: connect_def split: if_splits answer.splits)

lemma well_formed_connect:
  assumes wf: "well_formed g" and c: "connect g c p = Returned g'"
    and ac: "acyclic (edges g')"
  shows "well_formed g'"
proof -
  from connect_cases [OF c] show ?thesis
  proof
    assume "g' = g"
    with wf show ?thesis by simp
  next
    assume h: "g' = add_parent g c p \<and> exists g c \<and> exists g p"
    note W = well_formedD [OF wf]
    from h have np: "\<And>a. node_parents g' a = (if a = c then node_parents g c @ [p] else node_parents g a)"
      and nc: "\<And>a. node_children g' a = (if a = p then node_children g p @ [c] else node_children g a)"
      by (simp_all add: node_parents_add_parent node_children_add_parent)
    from h have ex: "\<And>a. exists g' a = exists g a" and st: "stem_id g' = stem_id g" by simp_all
    have "edge_consistent g'" unfolding edge_consistent_def
    proof (intro allI)
      fix a b
      show "count_list (node_parents g' a) b = count_list (node_children g' b) a"
        using edge_consistentD [OF W(3), of a b] by (auto simp: np nc)
    qed
    moreover have "rooted g'" using W(4) by (simp add: rooted_def ex st np)
    ultimately show ?thesis using W(1,2) ac by (simp add: well_formed_def ex st)
  qed
qed

lemma well_formed_new:
  assumes "VirusGenealogy ctor s = Value g"
  shows "well_formed g"
proof -
  from assms obtain v where g: "g = \<lparr>stem_id = s,
      known_ids = [s \<mapsto> \<lparr>virus = v, parents = [], children = []\<rparr>]\<rparr>"
    by (auto simp: VirusGenealogy_def make_node_def split: option.splits)
  have ex: "\<And>a. exists g a \<longleftrightarrow> a = s" by (simp add: g exists_def)
  have np: "\<And>a. node_parents g a = []" and nc: "\<And>a. node_children g a = []"
    by (simp_all add: g node_parents_def node_children_def)
  have ed: "edges g = {}" by (simp add: edges_def np)
  have sid: "stem_id g = s" by (simp add: g)
  have "{a. exists g a} = {s}" using ex by auto
  then have fin: "finite {a. exists g a}" by simp
  have ac: "acyclic (edges g)" by (simp add: ed acyclic_def)
  show ?thesis unfolding well_formed_def
  proof (intro conjI)
    show "finite {a. exists g a}" by (rule fin)
    show "exists g (stem_id g)" by (simp add: ex sid)
    show "edge_consistent g" by (simp add: edge_consistent_def np nc)
    show "rooted g" by (simp add: rooted_def ex sid)
    show "acyclic (edges g)" by (rule ac)
  qed
qed

lemma acyclic_ranked:
  fixes f :: "'a \<Rightarrow> nat"
  assumes "\<And>p c. (p, c) \<in> r \<Longrightarrow> f p < f c"
  shows "acyclic r"
proof -
  have "r \<subseteq> inv_image less_than f" using assms by auto
  moreover have "wf (inv_image less_than f)" by simp
  ultimately have "wf r" by (rule wf_subset [rotated])
  then show ?thesis by (rule wf_acyclic)
qed

text \<open>The example genealogies arise from the calls of the scenarios.\<close>

lemma new_stem_only: "VirusGenealogy example_ctor ''S'' = Value stem_only"
  by (simp add: VirusGenealogy_def make_node_def example_ctor_def stem_only_def)

lemma create_stem_child: "create example_ctor stem_only ''A'' ''S'' = Returned stem_child"
  by (simp add: create_def exists_def make_node_def example_ctor_def stem_only_def
      stem_child_def add_parent_def update_node_def insert_node_def fun_eq_iff)

lemma create_lineage: "create_multi example_ctor stem_child ''B'' [''A''] = Returned lineage"
  by (simp add: create_multi_def exists_def make_node_def example_ctor_def stem_child_def
      lineage_def add_parent_def update_node_def insert_node_def fun_eq_iff)

lemma connect_lineage: "connect lineage ''B'' ''S'' = Returned lineage_joined"
  by (simp add: connect_def exists_def get_parents_def lineage_def add_parent_lineage [symmetric])

lemma connect_stem_cycle: "connect stem_child ''S'' ''A'' = Returned stem_cycle"
  by (simp add: connect_def exists_def get_parents_def stem_child_def stem_cycle_def
      add_parent_def update_node_def fun_eq_iff)

lemma remove_in_stem_cycle:
  "remove_fuel 2 stem_cycle ''A'' = Some (Threw TriedToRemoveStemVirus stem_cycle_torn)"
  by (simp add: remove_fuel.simps remove_my_trace_def remove_parent_def remove_child_def
      is_orphan_def exists_def stem_cycle_def stem_cycle_torn_def update_node_def fun_eq_iff)

lemma well_formed_stem_only: "well_formed stem_only"
  using new_stem_only by (rule well_formed_new)

lemma well_formed_stem_child: "well_formed stem_child"
  using well_formed_create_multi [OF well_formed_stem_only, of example_ctor "''A''" "[''S'']"]
    create_stem_child
  by (simp add: create_as_multi)

lemma well_formed_lineage: "well_formed lineage"
  using well_formed_stem_child create_lineage by (rule well_formed_create_multi)

lemma acyclic_lineage_joined: "acyclic (edges lineage_joined)"
proof (rule acyclic_ranked)
  fix p c :: string
  assume "(p, c) \<in> edges lineage_joined"
  then show "(if p = ''S'' then 0 else if p = ''A'' then 1 else (2::nat))
      < (if c = ''S'' then 0 else if c = ''A'' then 1 else 2)"
    by (auto simp: edges_def node_parents_def lineage_joined_def split: if_splits)
qed

lemma well_formed_lineage_joined: "well_formed lineage_joined"
  using well_formed_lineage connect_lineage acyclic_lineage_joined by (rule well_formed_connect)

subsection \<open>Every call on a well-formed genealogy\<close>

lemma keeps_order_grow:
  assumes ec: "edge_consistent g" and ex: "\<And>a. exists g a \<Longrightarrow> exists g' a"
    and np: "\<And>a. exists g a \<Longrightarrow> \<exists>xs. node_parents g' a = node_parents g a @ xs"
    and nc: "\<And>a. exists g a \<Longrightarrow> \<exists>ys. node_children g' a = node_children g a @ ys"
  shows "keeps_order g g'"
  unfolding keeps_order_def
proof (intro allI impI)
  fix a assume a: "exists g a \<and> exists g' a"
  have "filter (exists g') (node_parents g a) = node_parents g a"
    using edge_consistent_closed(1) [OF ec, of _ a] ex by (intro filter_True) blast
  moreover have "filter (exists g') (node_children g a) = node_children g a"
    using edge_consistent_closed(2) [OF ec, of _ a] ex by (intro filter_True) blast
  ultimately show "(\<exists>xs. node_parents g' a = filter (exists g') (node_parents g a) @ xs)
      \<and> (\<exists>ys. node_children g' a = filter (exists g') (node_children g a) @ ys)"
    using np [of a] nc [of a] a by simp
qed

lemma keeps_order_refl: "edge_consistent g \<Longrightarrow> keeps_order g g"
  by (rule keeps_order_grow) simp_all

lemma well_formed_after_create_multi:
  assumes wf: "well_formed g" and s: "state_after (create_multi ctor g i ps) = Some g'"
  shows "well_formed g' \<and> keeps_order g g'"
proof (cases "create_multi ctor g i ps")
  case (Returned g1)
  with s have c: "create_multi ctor g i ps = Returned g'" by simp
  note ec = well_formedD(3) [OF wf]
  have "keeps_order g g'"
  proof (cases "ps = []")
    case True
    with c create_multi_empty [of ctor g i g'] ec show ?thesis by (simp add: keeps_order_refl)
  next
    case False
    note S = create_multi_success [OF c False]
    show ?thesis
    proof (rule keeps_order_grow [OF ec])
      fix a assume a: "exists g a"
      then show "exists g' a" by (simp add: S(4))
      from a S(1) have "a \<noteq> i" by blast
      then show "\<exists>xs. node_parents g' a = node_parents g a @ xs" by (simp add: S(5))
      show "\<exists>ys. node_children g' a = node_children g a @ ys" by (simp add: S(6))
    qed
  qed
  with well_formed_create_multi [OF wf c] show ?thesis by simp
next
  case (Threw e g1)
  with s create_multi_Threw [OF Threw] wf show ?thesis
    by (simp add: keeps_order_refl well_formedD(3))
next
  case (Failed f)
  with s show ?thesis by simp
qed

lemma well_formed_after_connect:
  assumes wf: "well_formed g" and s: "state_after (connect g c p) = Some g'"
    and ac: "acyclic (edges g')"
  shows "well_formed g' \<and> keeps_order g g'"
proof (cases "connect g c p")
  case (Returned g1)
  with s have c: "connect g c p = Returned g'" by simp
  note ec = well_formedD(3) [OF wf]
  from connect_cases [OF c] have "keeps_order g g'"
  proof
    assume "g' = g"
    with ec show ?thesis by (simp add: keeps_order_refl)
  next
    assume h: "g' = add_parent g c p \<and> exists g c \<and> exists g p"
    show ?thesis
    proof (rule keeps_order_grow [OF ec])
      fix a assume a: "exists g a"
      with h show "exists g' a" by simp
      from h show "\<exists>xs. node_parents g' a = node_parents g a @ xs"
        by (simp add: node_parents_add_parent)
      from h show "\<exists>ys. node_children g' a = node_children g a @ ys"
        by (simp add: node_children_add_parent)
    qed
  qed
  with well_formed_connect [OF wf c ac] show ?thesis by simp
next
  case (Threw e g1)
  with s connect_Threw [OF Threw] wf show ?thesis
    by (simp add: keeps_order_refl well_formedD(3))
next
  case (Failed f)
  with s show ?thesis by simp
qed

lemma keeps_order_cascaded:
  assumes c: "cascaded g g' {a. exists g a} X"
  shows "keeps_order g g'"
  unfolding keeps_order_def
proof (intro allI impI)
  fix a assume a: "exists g a \<and> exists g' a"
  then have "a \<in> {a. exists g a}" by simp
  from cascaded_lists [OF c this] a
  show "(\<exists>xs. node_parents g' a = filter (exists g') (node_parents g a) @ xs)
      \<and> (\<exists>ys. node_children g' a = filter (exists g') (node_children g a) @ ys)"
    by simp
qed

lemma well_formed_after_remove:
  assumes wf: "well_formed g" and r: "remove_fuel k g i = Some r"
    and s: "state_after r = Some g'"
  shows "well_formed g' \<and> keeps_order g g'"
proof -
  from remove_fuel_well_formed [OF wf r] s
  have "g' = g \<or> (cascaded g g' {a. exists g a} {i} \<and> well_formed g')" by auto
  then show ?thesis
  proof
    assume "g' = g"
    with wf show ?thesis by (simp add: keeps_order_refl well_formedD(3))
  next
    assume "cascaded g g' {a. exists g a} {i} \<and> well_formed g'"
    then show ?thesis using keeps_order_cascaded by blast
  qed
qed

lemma remove_fuel_Threw_well_formed:
  assumes wf: "well_formed g" and r: "remove_fuel k g i = Some (Threw e g')"
  shows "g' = g"
  using remove_fuel_well_formed [OF wf r] by auto

lemma remove_fuel_entry_Threw:
  assumes "i = stem_id g \<or> \<not> exists g i" and "remove_fuel k g i = Some (Threw e g')"
  shows "g' = g"
  using assms by (subst (asm) remove_fuel.simps) (auto split: if_splits)

lemma create_multi_ctor_fails:
  assumes "\<not> exists g i" and "exists_all g ps" and "ps \<noteq> []" and "ctor i = None"
  shows "create_multi ctor g i ps = Threw VirusCtorThrew g"
  using assms by (simp add: create_multi_def make_node_def erase_unregistered)

lemma cascaded_virus:
  assumes c: "cascaded g g' L X" and a: "a \<in> L" and e: "exists g' a"
  shows "get_virus g' a = get_virus g a"
  using cascadedD(3) [OF c a e]
  by (cases "known_ids g a") (simp_all add: get_virus_def restrict_node_def)

lemma rootedD: "rooted g \<Longrightarrow> exists g a \<Longrightarrow> a \<noteq> stem_id g \<Longrightarrow> node_parents g a \<noteq> []"
  by (simp add: rooted_def)

lemma removal_in_well_formed:
  assumes wf: "well_formed g" and e: "exists g i" and ns: "i \<noteq> stem_id g"
  shows "\<exists>g'. (\<forall>k\<ge>card {a. exists g a}. remove_fuel k g i = Some (Returned g'))
      \<and> well_formed g' \<and> stem_id g' = stem_id g \<and> \<not> exists g' i
      \<and> (\<forall>a. exists g' a \<longrightarrow>
            exists g a \<and> get_virus g' a = get_virus g a
            \<and> node_parents g' a = filter (exists g') (node_parents g a)
            \<and> node_children g' a = filter (exists g') (node_children g a)
            \<and> i \<notin> set (node_parents g' a) \<and> i \<notin> set (node_children g' a))
      \<and> (\<forall>a. exists g a \<and> \<not> exists g' a \<and> a \<noteq> i \<longrightarrow>
            node_parents g a \<noteq> [] \<and> (\<forall>p\<in>set (node_parents g a). \<not> exists g' p))
      \<and> (\<forall>a. exists g' a \<and> a \<noteq> stem_id g' \<longrightarrow> node_parents g' a \<noteq> [])"
proof -
  from remove_well_formed [OF wf e ns] obtain g' where
    all: "\<forall>k\<ge>card {a. exists g a}. remove_fuel k g i = Some (Returned g')"
    and c: "cascaded g g' {a. exists g a} {i}" and wf': "well_formed g'"
    by blast
  note C = cascadedD [OF c]
  have gone: "\<not> exists g' i" using C(4) by simp
  have surv: "exists g a \<and> get_virus g' a = get_virus g a
      \<and> node_parents g' a = filter (exists g') (node_parents g a)
      \<and> node_children g' a = filter (exists g') (node_children g a)
      \<and> i \<notin> set (node_parents g' a) \<and> i \<notin> set (node_children g' a)"
    if e': "exists g' a" for a
  proof -
    from cascaded_exists [OF c e'] have ea: "exists g a" .
    then have aL: "a \<in> {a. exists g a}" by simp
    note l = cascaded_lists [OF c aL e']
    from l gone have "i \<notin> set (node_parents g' a)" "i \<notin> set (node_children g' a)" by simp_all
    with ea cascaded_virus [OF c aL e'] l show ?thesis by simp
  qed
  have rem: "node_parents g a \<noteq> [] \<and> (\<forall>p\<in>set (node_parents g a). \<not> exists g' p)"
    if "exists g a \<and> \<not> exists g' a \<and> a \<noteq> i" for a
    using C(5) [of a] that by auto
  have root: "node_parents g' a \<noteq> []" if "exists g' a \<and> a \<noteq> stem_id g'" for a
    using rootedD [OF well_formedD(4) [OF wf']] that by simp
  from all wf' C(1) gone surv rem root show ?thesis by blast
qed

lemma reachable_acyclic_well_formed: "reachable_acyclic ctor g \<Longrightarrow> well_formed g"
proof (induction rule: reachable_acyclic.induct)
  case (acyclic_new s g)
  then show ?case by (rule well_formed_new)
next
  case (acyclic_create g i p g')
  then show ?case
    using well_formed_after_create_multi [of g ctor i "[p]" g'] by (simp add: create_as_multi)
next
  case (acyclic_create_multi g i ps g')
  then show ?case using well_formed_after_create_multi [of g ctor i ps g'] by simp
next
  case (acyclic_connect g c p g')
  then show ?case using well_formed_after_connect [of g c p g'] by simp
next
  case (acyclic_remove g k i r g')
  then show ?case using well_formed_after_remove [of g k i r g'] by simp
qed

subsection \<open>Removal with its cascade\<close>

lemma reachable_stem_cycle: "reachable example_ctor stem_cycle"
proof -
  from new_stem_only have "reachable example_ctor stem_only" by (rule reachable_new)
  then have "reachable example_ctor stem_child"
    by (rule reachable_create [where i = "''A''" and p = "''S''"]) (simp add: create_stem_child)
  then show ?thesis
    by (rule reachable_connect [where c = "''S''" and p = "''A''"]) (simp add: connect_stem_cycle)
qed

text \<open>C1 as stated fails for a registered node other than the stem in a genealogy in
  which \<^verbatim>\<open>connect\<close> has made the stem a child of its own child \<open>A\<close>:
  \<^verbatim>\<open>remove(A)\<close> takes \<open>A\<close> out of the lists of the stem, finds the stem
  orphaned, calls itself on the stem and throws \<^verbatim>\<open>TriedToRemoveStemVirus\<close>.
  The registry entry of \<open>A\<close> is not erased: \<open>A\<close> is registered after the call.\<close>

theorem remove_leaves_node_on_cycle:
  "reachable example_ctor stem_cycle
   \<and> exists stem_cycle ''A'' \<and> ''A'' \<noteq> stem_id stem_cycle
   \<and> remove_fuel 2 stem_cycle ''A'' = Some (Threw TriedToRemoveStemVirus stem_cycle_torn)
   \<and> exists stem_cycle_torn ''A''"
proof (intro conjI)
  show "reachable example_ctor stem_cycle" by (rule reachable_stem_cycle)
  show "exists stem_cycle ''A''" by (simp add: exists_def stem_cycle_def)
  show "''A'' \<noteq> stem_id stem_cycle" by (simp add: stem_cycle_def)
  show "remove_fuel 2 stem_cycle ''A'' = Some (Threw TriedToRemoveStemVirus stem_cycle_torn)"
    by (rule remove_in_stem_cycle)
  show "exists stem_cycle_torn ''A''" by (simp add: exists_def stem_cycle_torn_def)
qed

text \<open>C1, amended. In a well-formed genealogy (finitely many nodes, consistent edges, a
  parent for every node but the stem, no cycle), \<^verbatim>\<open>remove(i)\<close> of a registered
  node \<open>i\<close> other than the stem returns, with one and the same graph for every bound
  on the nested calls that is at least the number of registered nodes. In that graph \<open>i\<close> is not registered
  and no node lists it as a parent or as a child; the nodes still registered keep their
  payload and their lists, cut down to the nodes still registered; a node other than \<open>i\<close>
  that is gone had parents and all of them are gone, so that a node with a parent that
  is left is left itself; and every node that is left, other than the stem, has a parent,
  so that no node that lost all its parents remains, however deep below \<open>i\<close>. The graph
  is well-formed again. In the scenario, \<open>B\<close> has the parents \<open>A\<close> and \<open>S\<close> after
  \<^verbatim>\<open>connect(B, S)\<close>, and \<^verbatim>\<open>remove(A)\<close> leaves \<open>B\<close> registered and \<open>A\<close> not.\<close>

theorem remove_cascades:
  "(well_formed g \<and> exists g i \<and> i \<noteq> stem_id g \<longrightarrow>
      (\<exists>g'. (\<forall>k\<ge>card {a. exists g a}. remove_fuel k g i = Some (Returned g'))
         \<and> well_formed g' \<and> stem_id g' = stem_id g \<and> \<not> exists g' i
         \<and> (\<forall>a. exists g' a \<longrightarrow>
               exists g a \<and> get_virus g' a = get_virus g a
               \<and> node_parents g' a = filter (exists g') (node_parents g a)
               \<and> node_children g' a = filter (exists g') (node_children g a)
               \<and> i \<notin> set (node_parents g' a) \<and> i \<notin> set (node_children g' a))
         \<and> (\<forall>a. exists g a \<and> \<not> exists g' a \<and> a \<noteq> i \<longrightarrow>
               node_parents g a \<noteq> [] \<and> (\<forall>p\<in>set (node_parents g a). \<not> exists g' p))
         \<and> (\<forall>a. exists g' a \<and> a \<noteq> stem_id g' \<longrightarrow> node_parents g' a \<noteq> [])))
   \<and> (create example_ctor stem_only ''A'' ''S'' = Returned stem_child
        \<and> create_multi example_ctor stem_child ''B'' [''A''] = Returned lineage
        \<and> connect lineage ''B'' ''S'' = Returned lineage_joined
        \<and> get_parents lineage_joined ''B'' = Value [''A'', ''S'']
        \<and> (\<exists>g'. remove_fuel (Suc 0) lineage_joined ''A'' = Some (Returned g')
              \<and> exists g' ''B'' \<and> \<not> exists g' ''A''))"
proof (intro conjI impI)
  assume "well_formed g \<and> exists g i \<and> i \<noteq> stem_id g"
  then show "\<exists>g'. (\<forall>k\<ge>card {a. exists g a}. remove_fuel k g i = Some (Returned g'))
         \<and> well_formed g' \<and> stem_id g' = stem_id g \<and> \<not> exists g' i
         \<and> (\<forall>a. exists g' a \<longrightarrow>
               exists g a \<and> get_virus g' a = get_virus g a
               \<and> node_parents g' a = filter (exists g') (node_parents g a)
               \<and> node_children g' a = filter (exists g') (node_children g a)
               \<and> i \<notin> set (node_parents g' a) \<and> i \<notin> set (node_children g' a))
         \<and> (\<forall>a. exists g a \<and> \<not> exists g' a \<and> a \<noteq> i \<longrightarrow>
               node_parents g a \<noteq> [] \<and> (\<forall>p\<in>set (node_parents g a). \<not> exists g' p))
         \<and> (\<forall>a. exists g' a \<and> a \<noteq> stem_id g' \<longrightarrow> node_parents g' a \<noteq> [])"
    using removal_in_well_formed [of g i] by blast
next
  show "create example_ctor stem_only ''A'' ''S'' = Returned stem_child"
    by (rule create_stem_child)
  show "create_multi example_ctor stem_child ''B'' [''A''] = Returned lineage"
    by (rule create_lineage)
  show "connect lineage ''B'' ''S'' = Returned lineage_joined" by (rule connect_lineage)
  show "get_parents lineage_joined ''B'' = Value [''A'', ''S'']"
    by (simp add: get_parents_def exists_def lineage_joined_def)
  show "\<exists>g'. remove_fuel (Suc 0) lineage_joined ''A'' = Some (Returned g')
      \<and> exists g' ''B'' \<and> \<not> exists g' ''A''"
    by (simp add: remove_fuel.simps remove_my_trace_def remove_parent_def remove_child_def
        is_orphan_def exists_def lineage_joined_def update_node_def erase_def)
qed

lemma registered_lineage: "{a. exists lineage a} = {''S'', ''A'', ''B''}"
  by (auto simp: exists_def lineage_def split: if_splits)

theorem remove_cascades_witness:
  "\<exists>g'. remove_fuel 3 lineage ''A'' = Some (Returned g')
     \<and> \<not> exists g' ''A'' \<and> \<not> exists g' ''B'' \<and> exists g' ''S''"
proof -
  have h: "well_formed lineage \<and> exists lineage ''A'' \<and> ''A'' \<noteq> stem_id lineage"
    using well_formed_lineage by (simp add: exists_def lineage_def)
  have card: "card {a. exists lineage a} = 3" by (simp add: registered_lineage)
  from mp [OF conjunct1 [OF remove_cascades [of lineage "''A''"]] h]
  obtain g' where g':
    "(\<forall>k\<ge>card {a. exists lineage a}. remove_fuel k lineage ''A'' = Some (Returned g'))
       \<and> well_formed g' \<and> stem_id g' = stem_id lineage \<and> \<not> exists g' ''A''
       \<and> (\<forall>a. exists g' a \<longrightarrow>
             exists lineage a \<and> get_virus g' a = get_virus lineage a
             \<and> node_parents g' a = filter (exists g') (node_parents lineage a)
             \<and> node_children g' a = filter (exists g') (node_children lineage a)
             \<and> ''A'' \<notin> set (node_parents g' a) \<and> ''A'' \<notin> set (node_children g' a))
       \<and> (\<forall>a. exists lineage a \<and> \<not> exists g' a \<and> a \<noteq> ''A'' \<longrightarrow>
             node_parents lineage a \<noteq> []
             \<and> (\<forall>p\<in>set (node_parents lineage a). \<not> exists g' p))
       \<and> (\<forall>a. exists g' a \<and> a \<noteq> stem_id g' \<longrightarrow> node_parents g' a \<noteq> [])" ..
  note all = g' [THEN conjunct1]
    and wf' = g' [THEN conjunct2, THEN conjunct1]
    and st = g' [THEN conjunct2, THEN conjunct2, THEN conjunct1]
    and gone = g' [THEN conjunct2, THEN conjunct2, THEN conjunct2, THEN conjunct1]
    and surv0 = g' [THEN conjunct2, THEN conjunct2, THEN conjunct2, THEN conjunct2,
        THEN conjunct1]
    and root = g' [THEN conjunct2, THEN conjunct2, THEN conjunct2, THEN conjunct2,
        THEN conjunct2, THEN conjunct2]
  have surv: "node_parents g' a = filter (exists g') (node_parents lineage a)"
    if "exists g' a" for a
    using surv0 [rule_format, OF that] by (elim conjE)
  from all card have run: "remove_fuel 3 lineage ''A'' = Some (Returned g')" by simp
  have pb: "node_parents lineage ''B'' = [''A'']" by (simp add: node_parents_def lineage_def)
  have "\<not> exists g' ''B''"
  proof
    assume b: "exists g' ''B''"
    from surv [OF b] pb gone have "node_parents g' ''B'' = []" by simp
    moreover from st have "''B'' \<noteq> stem_id g'" by (simp add: lineage_def)
    ultimately show False using root [rule_format, of "''B''"] b by simp
  qed
  moreover from wf' st have "exists g' ''S''" by (simp add: well_formed_def lineage_def)
  ultimately show ?thesis using run gone by blast
qed

subsection \<open>Calls that throw\<close>

text \<open>C3 as stated fails for \<^verbatim>\<open>remove\<close> in a genealogy in which \<^verbatim>\<open>connect\<close>
  has made the stem a child of its own child \<open>A\<close>: \<^verbatim>\<open>remove(A)\<close> unlinks \<open>A\<close>, finds
  the stem orphaned, calls itself on the stem and throws
  \<^verbatim>\<open>TriedToRemoveStemVirus\<close>; the stem has lost its parent and its child by then.\<close>

theorem remove_throws_after_unlinking:
  "reachable example_ctor stem_cycle
   \<and> remove_fuel 2 stem_cycle ''A'' = Some (Threw TriedToRemoveStemVirus stem_cycle_torn)
   \<and> get_parents stem_cycle ''S'' = Value [''A'']
   \<and> get_parents stem_cycle_torn ''S'' = Value []"
proof (intro conjI)
  show "reachable example_ctor stem_cycle" by (rule reachable_stem_cycle)
  show "remove_fuel 2 stem_cycle ''A'' = Some (Threw TriedToRemoveStemVirus stem_cycle_torn)"
    by (rule remove_in_stem_cycle)
  show "get_parents stem_cycle ''S'' = Value [''A'']"
    by (simp add: get_parents_def exists_def stem_cycle_def)
  show "get_parents stem_cycle_torn ''S'' = Value []"
    by (simp add: get_parents_def exists_def stem_cycle_torn_def)
qed

text \<open>C3, amended. A \<^verbatim>\<open>create\<close> (with one parent or several) or a
  \<^verbatim>\<open>connect\<close> that throws leaves the graph as it was, in every graph; so does a
  \<^verbatim>\<open>remove\<close> that throws at its two checks, and in a well-formed genealogy a
  \<^verbatim>\<open>remove\<close> throws nowhere else. When the payload constructor throws, \<^verbatim>\<open>create\<close>
  throws and the graph is as before: the identifier is not registered and no edge was
  added.\<close>

theorem failed_calls_change_nothing:
  "(create ctor g i p = Threw e g' \<longrightarrow> g' = g)
   \<and> (create_multi ctor g i ps = Threw e g' \<longrightarrow> g' = g)
   \<and> (connect g c p = Threw e g' \<longrightarrow> g' = g)
   \<and> ((i = stem_id g \<or> \<not> exists g i) \<and> remove_fuel k g i = Some (Threw e g') \<longrightarrow> g' = g)
   \<and> (well_formed g \<and> remove_fuel k g i = Some (Threw e g') \<longrightarrow> g' = g)
   \<and> (\<not> exists g i \<and> exists g p \<and> ctor i = None \<longrightarrow>
        create ctor g i p = Threw VirusCtorThrew g)
   \<and> (\<not> exists g i \<and> exists_all g ps \<and> ps \<noteq> [] \<and> ctor i = None \<longrightarrow>
        create_multi ctor g i ps = Threw VirusCtorThrew g)"
proof (intro conjI impI)
  assume "create ctor g i p = Threw e g'"
  then show "g' = g" using create_multi_Threw [of ctor g i "[p]" e g'] by (simp add: create_as_multi)
next
  assume "create_multi ctor g i ps = Threw e g'"
  then show "g' = g" by (rule create_multi_Threw)
next
  assume "connect g c p = Threw e g'"
  then show "g' = g" by (rule connect_Threw)
next
  assume h: "(i = stem_id g \<or> \<not> exists g i) \<and> remove_fuel k g i = Some (Threw e g')"
  show "g' = g" by (rule remove_fuel_entry_Threw [OF conjunct1 [OF h] conjunct2 [OF h]])
next
  assume h: "well_formed g \<and> remove_fuel k g i = Some (Threw e g')"
  show "g' = g" by (rule remove_fuel_Threw_well_formed [OF conjunct1 [OF h] conjunct2 [OF h]])
next
  assume "\<not> exists g i \<and> exists g p \<and> ctor i = None"
  then show "create ctor g i p = Threw VirusCtorThrew g"
    using create_multi_ctor_fails [of g i "[p]" ctor] by (simp add: create_as_multi)
next
  assume "\<not> exists g i \<and> exists_all g ps \<and> ps \<noteq> [] \<and> ctor i = None"
  then show "create_multi ctor g i ps = Threw VirusCtorThrew g"
    using create_multi_ctor_fails [of g i ps ctor] by simp
qed

theorem failed_calls_change_nothing_witness:
  "create (\<lambda>i. None) lineage ''C'' ''B'' = Threw VirusCtorThrew lineage
   \<and> create_multi example_ctor lineage ''C'' [''B'', ''X''] = Threw VirusNotFound lineage
   \<and> connect lineage ''B'' ''X'' = Threw VirusNotFound lineage
   \<and> remove_fuel 3 lineage ''X'' = Some (Threw VirusNotFound lineage)
   \<and> well_formed lineage"
proof -
  have 1: "\<not> exists lineage ''C'' \<and> exists lineage ''B'' \<and> (\<lambda>i. None) ''C'' = (None :: string option)"
    by (simp add: exists_def lineage_def)
  have 2: "create_multi example_ctor lineage ''C'' [''B'', ''X''] = Threw VirusNotFound lineage"
    by (simp add: create_multi_def exists_def lineage_def)
  have 3: "connect lineage ''B'' ''X'' = Threw VirusNotFound lineage"
    by (simp add: connect_def exists_def lineage_def)
  have 4: "remove_fuel 3 lineage ''X'' = Some (Threw VirusNotFound lineage)"
    by (simp add: remove_fuel.simps exists_def lineage_def)
  note t = failed_calls_change_nothing
    [of "\<lambda>i. None" lineage "''C''" "''B''" VirusNotFound lineage "[''B'', ''X'']" "''B''" 3]
  from t have "\<not> exists lineage ''C'' \<and> exists lineage ''B''
      \<and> (\<lambda>i. None) ''C'' = (None :: string option)
      \<longrightarrow> create (\<lambda>i. None) lineage ''C'' ''B'' = Threw VirusCtorThrew lineage"
    by (elim conjE)
  with 1 have "create (\<lambda>i. None) lineage ''C'' ''B'' = Threw VirusCtorThrew lineage" by (rule rev_mp)
  with 2 3 4 well_formed_lineage show ?thesis by simp
qed

subsection \<open>Edge consistency\<close>

text \<open>C7 as stated fails in a state reached through \<^verbatim>\<open>connect\<close> and a
  \<^verbatim>\<open>remove\<close> that throws: after \<^verbatim>\<open>connect(S, A)\<close> has made the stem a child of
  its child \<open>A\<close>, \<^verbatim>\<open>remove(A)\<close> throws half-way, and \<open>A\<close> still lists the stem as
  its parent while the stem no longer lists \<open>A\<close> as its child.\<close>

theorem edge_consistency_torn:
  "VirusGenealogy example_ctor ''S'' = Value stem_only
   \<and> create example_ctor stem_only ''A'' ''S'' = Returned stem_child
   \<and> connect stem_child ''S'' ''A'' = Returned stem_cycle
   \<and> remove_fuel 2 stem_cycle ''A'' = Some (Threw TriedToRemoveStemVirus stem_cycle_torn)
   \<and> ''S'' \<in> set (node_parents stem_cycle_torn ''A'')
   \<and> ''A'' \<notin> set (node_children stem_cycle_torn ''S'')"
proof (intro conjI)
  show "VirusGenealogy example_ctor ''S'' = Value stem_only" by (rule new_stem_only)
  show "create example_ctor stem_only ''A'' ''S'' = Returned stem_child"
    by (rule create_stem_child)
  show "connect stem_child ''S'' ''A'' = Returned stem_cycle" by (rule connect_stem_cycle)
  show "remove_fuel 2 stem_cycle ''A'' = Some (Threw TriedToRemoveStemVirus stem_cycle_torn)"
    by (rule remove_in_stem_cycle)
  show "''S'' \<in> set (node_parents stem_cycle_torn ''A'')"
    by (simp add: node_parents_def stem_cycle_torn_def)
  show "''A'' \<notin> set (node_children stem_cycle_torn ''S'')"
    by (simp add: node_children_def stem_cycle_torn_def)
qed

text \<open>C7, amended. The constructor yields a well-formed genealogy, and every call on a
  well-formed genealogy leaves it well-formed, for \<^verbatim>\<open>connect\<close> provided that the new
  edge closes no cycle; so every genealogy reachable without such a \<^verbatim>\<open>connect\<close> is
  well-formed. In a well-formed genealogy \<open>b\<close> is listed among the parents of
  \<open>a\<close> exactly as often as \<open>a\<close> is listed among the children of \<open>b\<close>, in particular
  the one is listed exactly when the other is. The order of both lists is that of
  insertion: a call keeps the old entries that are left in their order and puts new ones
  behind them.\<close>

theorem edge_consistency_kept:
  "(VirusGenealogy ctor s = Value g0 \<longrightarrow> well_formed g0)
   \<and> (well_formed g \<and> state_after (create ctor g i p) = Some g1 \<longrightarrow>
        well_formed g1 \<and> keeps_order g g1)
   \<and> (well_formed g \<and> state_after (create_multi ctor g i ps) = Some g2 \<longrightarrow>
        well_formed g2 \<and> keeps_order g g2)
   \<and> (well_formed g \<and> state_after (connect g c p) = Some g3 \<and> acyclic (edges g3) \<longrightarrow>
        well_formed g3 \<and> keeps_order g g3)
   \<and> (well_formed g \<and> remove_fuel k g i = Some r \<and> state_after r = Some g4 \<longrightarrow>
        well_formed g4 \<and> keeps_order g g4)
   \<and> (well_formed g \<longrightarrow>
        (\<forall>a b. count_list (node_parents g a) b = count_list (node_children g b) a)
        \<and> (\<forall>a b. b \<in> set (node_parents g a) \<longleftrightarrow> a \<in> set (node_children g b)))
   \<and> (reachable_acyclic ctor g5 \<longrightarrow> well_formed g5)"
proof (intro conjI impI)
  assume "reachable_acyclic ctor g5"
  then show "well_formed g5" by (rule reachable_acyclic_well_formed)
next
  assume "VirusGenealogy ctor s = Value g0"
  then show "well_formed g0" by (rule well_formed_new)
next
  assume h: "well_formed g \<and> state_after (create ctor g i p) = Some g1"
  then show "well_formed g1" and "keeps_order g g1"
    using well_formed_after_create_multi [of g ctor i "[p]" g1] by (simp_all add: create_as_multi)
next
  assume h: "well_formed g \<and> state_after (create_multi ctor g i ps) = Some g2"
  then show "well_formed g2" and "keeps_order g g2"
    using well_formed_after_create_multi [of g ctor i ps g2] by simp_all
next
  assume h: "well_formed g \<and> state_after (connect g c p) = Some g3 \<and> acyclic (edges g3)"
  then show "well_formed g3" and "keeps_order g g3"
    using well_formed_after_connect [of g c p g3] by simp_all
next
  assume h: "well_formed g \<and> remove_fuel k g i = Some r \<and> state_after r = Some g4"
  then show "well_formed g4" and "keeps_order g g4"
    using well_formed_after_remove [of g k i r g4] by simp_all
next
  assume h: "well_formed g"
  then have ec: "edge_consistent g" by (rule well_formedD(3))
  then show "\<forall>a b. count_list (node_parents g a) b = count_list (node_children g b) a"
    by (simp add: edge_consistent_def)
  show "\<forall>a b. b \<in> set (node_parents g a) \<longleftrightarrow> a \<in> set (node_children g b)"
    by (intro allI) (rule edge_consistent_iff [OF ec])
qed

theorem edge_consistency_kept_witness:
  "well_formed stem_only \<and> well_formed lineage_joined
   \<and> keeps_order lineage lineage_joined
   \<and> count_list (node_parents lineage_joined ''B'') ''S''
       = count_list (node_children lineage_joined ''S'') ''B''"
proof -
  note t = edge_consistency_kept [of example_ctor "''S''" stem_only lineage "''B''" "''S''"
      lineage_joined "[''S'']" lineage_joined "''B''" lineage_joined 0
      "Threw TriedToRemoveStemVirus lineage" lineage stem_only]
  have a: "VirusGenealogy example_ctor ''S'' = Value stem_only" by (rule new_stem_only)
  have b: "well_formed lineage \<and> state_after (connect lineage ''B'' ''S'') = Some lineage_joined
      \<and> acyclic (edges lineage_joined)"
    by (simp add: well_formed_lineage connect_lineage acyclic_lineage_joined)
  from t have "VirusGenealogy example_ctor ''S'' = Value stem_only \<longrightarrow> well_formed stem_only"
    by (elim conjE)
  with a have 1: "well_formed stem_only" by (rule rev_mp)
  from t have "well_formed lineage \<and> state_after (connect lineage ''B'' ''S'') = Some lineage_joined
      \<and> acyclic (edges lineage_joined)
      \<longrightarrow> well_formed lineage_joined \<and> keeps_order lineage lineage_joined"
    by (elim conjE)
  with b have 2: "well_formed lineage_joined \<and> keeps_order lineage lineage_joined"
    by (rule rev_mp)
  have "count_list (node_parents lineage_joined ''B'') ''S''
       = count_list (node_children lineage_joined ''S'') ''B''"
    by (simp add: node_parents_def node_children_def lineage_joined_def)
  with 1 2 show ?thesis by simp
qed

subsection \<open>Connection of registered nodes\<close>

lemma reachable_lineage: "reachable example_ctor lineage"
proof -
  from new_stem_only have "reachable example_ctor stem_only" by (rule reachable_new)
  then have "reachable example_ctor stem_child"
    by (rule reachable_create [where i = "''A''" and p = "''S''"]) (simp add: create_stem_child)
  then show ?thesis
    by (rule reachable_create_multi [where i = "''B''" and ps = "[''A'']"])
      (simp add: create_lineage)
qed

lemma well_formed_get_parents:
  assumes "well_formed g" "exists g c"
  shows "get_parents g c = Value (node_parents g c)"
proof -
  from assms(1) have "edge_consistent g" by (rule well_formedD)
  then have "\<forall>q\<in>set (node_parents g c). exists g q"
    using edge_consistent_closed(1) [of g _ c] by blast
  with assms(2) show ?thesis by (rule get_parents_registered)
qed

lemma get_virus_add_parent: "get_virus (add_parent g c p) i = get_virus g i"
  by (auto simp: get_virus_def add_parent_def update_node_def split: option.splits)

lemma connect_lineage_cycle: "connect lineage ''S'' ''B'' = Returned lineage_cycle"
  by (simp add: connect_def exists_def get_parents_def lineage_def lineage_cycle_def
      add_parent_def update_node_def fun_eq_iff)

lemma remove_in_lineage_cycle:
  "remove_fuel 2 lineage_cycle ''B'' = Some (Threw TriedToRemoveStemVirus lineage_torn)"
  by (simp add: remove_fuel.simps remove_my_trace_def remove_parent_def remove_child_def
      is_orphan_def exists_def lineage_cycle_def lineage_torn_def update_node_def fun_eq_iff)

lemma remove_in_lineage_torn:
  "remove_fuel 2 lineage_torn ''A'' = Some (Returned lineage_dangling)"
  by (simp add: remove_fuel.simps remove_my_trace_def remove_parent_def remove_child_def
      is_orphan_def exists_def lineage_torn_def lineage_dangling_def update_node_def
      erase_def fun_eq_iff)

lemma reachable_lineage_dangling: "reachable example_ctor lineage_dangling"
proof -
  from reachable_lineage have "reachable example_ctor lineage_cycle"
    by (rule reachable_connect [where c = "''S''" and p = "''B''"])
      (simp add: connect_lineage_cycle)
  then have "reachable example_ctor lineage_torn"
    by (rule reachable_remove [OF _ remove_in_lineage_cycle]) simp
  then show ?thesis
    by (rule reachable_remove [OF _ remove_in_lineage_torn]) simp
qed

text \<open>C6 as stated fails in two ways. When the parent is not registered, nothing is
  appended: in the genealogy with the stem \<open>S\<close>, its child \<open>A\<close> and the child \<open>B\<close> of
  \<open>A\<close>, the identifier \<open>X\<close> is not among the parents of \<open>B\<close>, and
  \<^verbatim>\<open>connect(B, X)\<close> throws \<^verbatim>\<open>VirusNotFound\<close>. And with both identifiers
  registered the call need not return: after \<^verbatim>\<open>connect(S, B)\<close>, a
  \<^verbatim>\<open>remove(B)\<close> that throws at the stem and a \<^verbatim>\<open>remove(A)\<close> that
  returns, \<open>B\<close> holds a weak pointer to the node \<open>A\<close> that is gone, and
  \<^verbatim>\<open>connect(B, S)\<close> ends at the lock of that pointer in
  \<^verbatim>\<open>get_parents\<close>.\<close>

theorem connect_without_append:
  "reachable example_ctor lineage
   \<and> get_parents lineage ''B'' = Value [''A'']
   \<and> ''X'' \<notin> set [''A'']
   \<and> connect lineage ''B'' ''X'' = Threw VirusNotFound lineage
   \<and> connect lineage ''S'' ''B'' = Returned lineage_cycle
   \<and> remove_fuel 2 lineage_cycle ''B'' = Some (Threw TriedToRemoveStemVirus lineage_torn)
   \<and> remove_fuel 2 lineage_torn ''A'' = Some (Returned lineage_dangling)
   \<and> reachable example_ctor lineage_dangling
   \<and> exists lineage_dangling ''B'' \<and> exists lineage_dangling ''S''
   \<and> connect lineage_dangling ''B'' ''S'' = Failed StalePointer"
proof (intro conjI)
  show "reachable example_ctor lineage" by (rule reachable_lineage)
  show "get_parents lineage ''B'' = Value [''A'']"
    by (simp add: get_parents_def exists_def lineage_def)
  show "''X'' \<notin> set [''A'']" by simp
  show "connect lineage ''B'' ''X'' = Threw VirusNotFound lineage"
    by (simp add: connect_def exists_def lineage_def)
  show "connect lineage ''S'' ''B'' = Returned lineage_cycle" by (rule connect_lineage_cycle)
  show "remove_fuel 2 lineage_cycle ''B'' = Some (Threw TriedToRemoveStemVirus lineage_torn)"
    by (rule remove_in_lineage_cycle)
  show "remove_fuel 2 lineage_torn ''A'' = Some (Returned lineage_dangling)"
    by (rule remove_in_lineage_torn)
  show "reachable example_ctor lineage_dangling" by (rule reachable_lineage_dangling)
  show "exists lineage_dangling ''B''" by (simp add: exists_def lineage_dangling_def)
  show "exists lineage_dangling ''S''" by (simp add: exists_def lineage_dangling_def)
  show "connect lineage_dangling ''B'' ''S'' = Failed StalePointer"
    by (simp add: connect_def get_parents_def exists_def lineage_dangling_def)
qed

text \<open>C6, amended. In a well-formed genealogy, for a registered child \<open>c\<close> and a
  registered parent \<open>p\<close>: when \<open>p\<close> is among the parents of \<open>c\<close>,
  \<^verbatim>\<open>connect(c, p)\<close> returns and the graph is the one before the call; when it is
  not, the call returns a graph in which \<open>p\<close> is appended to the parents of \<open>c\<close> and \<open>c\<close>
  to the children of \<open>p\<close>, every other list, every payload and the set of registered
  identifiers being as before. When \<open>c\<close> or \<open>p\<close> is not registered, the call throws
  \<^verbatim>\<open>VirusNotFound\<close> and changes nothing. The call ends in no fault, and a second
  \<^verbatim>\<open>connect(c, p)\<close> ends as the first did and leaves the graph of the first, so
  the parents of \<open>c\<close> after two calls are those after one.\<close>

theorem connect_idempotent:
  "well_formed g \<longrightarrow>
     (exists g c \<and> exists g p \<and> p \<in> set (node_parents g c) \<longrightarrow>
        get_parents g c = Value (node_parents g c) \<and> connect g c p = Returned g)
     \<and> (exists g c \<and> exists g p \<and> p \<notin> set (node_parents g c) \<longrightarrow>
        get_parents g c = Value (node_parents g c)
        \<and> connect g c p = Returned (add_parent g c p)
        \<and> get_parents (add_parent g c p) c = Value (node_parents g c @ [p])
        \<and> node_children (add_parent g c p) p = node_children g p @ [c]
        \<and> (\<forall>i. i \<noteq> c \<longrightarrow> node_parents (add_parent g c p) i = node_parents g i)
        \<and> (\<forall>i. i \<noteq> p \<longrightarrow> node_children (add_parent g c p) i = node_children g i)
        \<and> (\<forall>i. exists (add_parent g c p) i = exists g i)
        \<and> (\<forall>i. get_virus (add_parent g c p) i = get_virus g i))
     \<and> (\<not> exists g c \<or> \<not> exists g p \<longrightarrow> connect g c p = Threw VirusNotFound g)
     \<and> (\<exists>g1. state_after (connect g c p) = Some g1
           \<and> connect g1 c p = connect g c p
           \<and> state_after (connect g1 c p) = Some g1)"
proof (rule impI)
  assume wf: "well_formed g"
  have gp: "get_parents g c = Value (node_parents g c)" if "exists g c"
    using wf that by (rule well_formed_get_parents)
  have listed: "exists g c \<and> exists g p \<and> p \<in> set (node_parents g c) \<longrightarrow>
      get_parents g c = Value (node_parents g c) \<and> connect g c p = Returned g"
  proof (intro impI conjI)
    assume a: "exists g c \<and> exists g p \<and> p \<in> set (node_parents g c)"
    then show "get_parents g c = Value (node_parents g c)" using gp by simp
    with a show "connect g c p = Returned g" by (simp add: connect_def)
  qed
  have new: "exists g c \<and> exists g p \<and> p \<notin> set (node_parents g c) \<longrightarrow>
      get_parents g c = Value (node_parents g c)
      \<and> connect g c p = Returned (add_parent g c p)
      \<and> get_parents (add_parent g c p) c = Value (node_parents g c @ [p])
      \<and> node_children (add_parent g c p) p = node_children g p @ [c]
      \<and> (\<forall>i. i \<noteq> c \<longrightarrow> node_parents (add_parent g c p) i = node_parents g i)
      \<and> (\<forall>i. i \<noteq> p \<longrightarrow> node_children (add_parent g c p) i = node_children g i)
      \<and> (\<forall>i. exists (add_parent g c p) i = exists g i)
      \<and> (\<forall>i. get_virus (add_parent g c p) i = get_virus g i)"
  proof (intro impI conjI)
    assume a: "exists g c \<and> exists g p \<and> p \<notin> set (node_parents g c)"
    then show g: "get_parents g c = Value (node_parents g c)" using gp by simp
    from a g show "connect g c p = Returned (add_parent g c p)"
      by (simp add: connect_new_edge(1))
    from a g show "get_parents (add_parent g c p) c = Value (node_parents g c @ [p])"
      by (simp add: connect_new_edge(2))
    from a show "node_children (add_parent g c p) p = node_children g p @ [c]"
      by (simp add: node_children_add_parent)
    from a show "\<forall>i. i \<noteq> c \<longrightarrow> node_parents (add_parent g c p) i = node_parents g i"
      by (simp add: node_parents_add_parent)
    from a show "\<forall>i. i \<noteq> p \<longrightarrow> node_children (add_parent g c p) i = node_children g i"
      by (simp add: node_children_add_parent)
    show "\<forall>i. exists (add_parent g c p) i = exists g i" by simp
    show "\<forall>i. get_virus (add_parent g c p) i = get_virus g i"
      by (simp add: get_virus_add_parent)
  qed
  have missing: "\<not> exists g c \<or> \<not> exists g p \<longrightarrow> connect g c p = Threw VirusNotFound g"
    by (simp add: connect_def)
  have twice: "\<exists>g1. state_after (connect g c p) = Some g1
      \<and> connect g1 c p = connect g c p
      \<and> state_after (connect g1 c p) = Some g1"
  proof (cases "exists g c \<and> exists g p")
    case False
    then have "connect g c p = Threw VirusNotFound g" by (simp add: connect_def)
    then show ?thesis by simp
  next
    case True
    then have "get_parents g c = Value (node_parents g c)" using gp by simp
    with True obtain g1 where r: "connect g c p = Returned g1"
      by (cases "p \<in> set (node_parents g c)") (simp_all add: connect_def)
    from connect_twice [OF r] r show ?thesis by simp
  qed
  show "(exists g c \<and> exists g p \<and> p \<in> set (node_parents g c) \<longrightarrow>
        get_parents g c = Value (node_parents g c) \<and> connect g c p = Returned g)
     \<and> (exists g c \<and> exists g p \<and> p \<notin> set (node_parents g c) \<longrightarrow>
        get_parents g c = Value (node_parents g c)
        \<and> connect g c p = Returned (add_parent g c p)
        \<and> get_parents (add_parent g c p) c = Value (node_parents g c @ [p])
        \<and> node_children (add_parent g c p) p = node_children g p @ [c]
        \<and> (\<forall>i. i \<noteq> c \<longrightarrow> node_parents (add_parent g c p) i = node_parents g i)
        \<and> (\<forall>i. i \<noteq> p \<longrightarrow> node_children (add_parent g c p) i = node_children g i)
        \<and> (\<forall>i. exists (add_parent g c p) i = exists g i)
        \<and> (\<forall>i. get_virus (add_parent g c p) i = get_virus g i))
     \<and> (\<not> exists g c \<or> \<not> exists g p \<longrightarrow> connect g c p = Threw VirusNotFound g)
     \<and> (\<exists>g1. state_after (connect g c p) = Some g1
           \<and> connect g1 c p = connect g c p
           \<and> state_after (connect g1 c p) = Some g1)"
    by (rule conjI [OF listed conjI [OF new conjI [OF missing twice]]])
qed

theorem connect_idempotent_witness:
  "connect lineage ''B'' ''S'' = Returned lineage_joined
   \<and> get_parents lineage_joined ''B'' = Value [''A'', ''S'']
   \<and> node_children lineage_joined ''S'' = [''A'', ''B'']
   \<and> connect lineage_joined ''B'' ''S'' = Returned lineage_joined
   \<and> connect lineage ''B'' ''X'' = Threw VirusNotFound lineage"
proof -
  have h1: "exists lineage ''B'' \<and> exists lineage ''S''
      \<and> ''S'' \<notin> set (node_parents lineage ''B'')"
    by (simp add: exists_def node_parents_def lineage_def)
  have h2: "exists lineage_joined ''B'' \<and> exists lineage_joined ''S''
      \<and> ''S'' \<in> set (node_parents lineage_joined ''B'')"
    by (simp add: exists_def node_parents_def lineage_joined_def)
  have h3: "\<not> exists lineage ''B'' \<or> \<not> exists lineage ''X''"
    by (simp add: exists_def lineage_def)
  have c: "node_children lineage ''S'' = [''A'']"
    by (simp add: node_children_def lineage_def)
  have p: "node_parents lineage ''B'' = [''A'']"
    by (simp add: node_parents_def lineage_def)
  note t1 = mp [OF connect_idempotent [of lineage "''B''" "''S''"] well_formed_lineage]
  note t2 = mp [OF connect_idempotent [of lineage_joined "''B''" "''S''"]
      well_formed_lineage_joined]
  note t3 = mp [OF connect_idempotent [of lineage "''B''" "''X''"] well_formed_lineage]
  note n1 = mp [OF t1 [THEN conjunct2, THEN conjunct1] h1]
  note r1 = n1 [THEN conjunct2, THEN conjunct1]
    and r1' = n1 [THEN conjunct2, THEN conjunct2, THEN conjunct1]
    and r1'' = n1 [THEN conjunct2, THEN conjunct2, THEN conjunct2, THEN conjunct1]
  note r2 = mp [OF t2 [THEN conjunct1] h2, THEN conjunct2]
  note r3 = mp [OF t3 [THEN conjunct2, THEN conjunct2, THEN conjunct1] h3]
  from r1 r1' r1'' r2 r3 c p show ?thesis by (simp add: add_parent_lineage)
qed


end
